theory Spec2Isabelle
  imports Complex_Main "HOL-Library.Multiset" "HOL-Library.Log_Nat"
begin

section \<open>JavaScript numbers\<close>

text \<open>
  The percentages of the program are JavaScript numbers. A finite number is modelled by
  the rational it denotes, and the three special values are kept, because the program
  divides by sums that can be zero. Two things are idealised. A finite result is exact
  here, where a double is rounded: sums and differences of the integers of a percentage
  list are exact in doubles as well, but a quotient or a product need not be, and
  \<open>Math.round\<close> of a double can differ from \<open>Math_round\<close> of the exact value when that
  value lies on a tie. On the concrete lists evaluated below the two agree. The sign of
  zero is dropped: every divisor of the program is the literal 100 or a sum that was
  started from \<open>+0\<close>, and such a sum is never \<open>-0\<close>.
\<close>

datatype jsnum = Fin rat | PInf | NInf | NaN

fun js_add :: "jsnum \<Rightarrow> jsnum \<Rightarrow> jsnum" where
  "js_add (Fin a) (Fin b) = Fin (a + b)"
| "js_add (Fin a) PInf = PInf"
| "js_add (Fin a) NInf = NInf"
| "js_add PInf (Fin b) = PInf"
| "js_add PInf PInf = PInf"
| "js_add PInf NInf = NaN"
| "js_add NInf (Fin b) = NInf"
| "js_add NInf PInf = NaN"
| "js_add NInf NInf = NInf"
| "js_add NaN y = NaN"
| "js_add x NaN = NaN"

fun js_neg :: "jsnum \<Rightarrow> jsnum" where
  "js_neg (Fin a) = Fin (- a)"
| "js_neg PInf = NInf"
| "js_neg NInf = PInf"
| "js_neg NaN = NaN"

definition js_sub :: "jsnum \<Rightarrow> jsnum \<Rightarrow> jsnum" where
  "js_sub x y = js_add x (js_neg y)"

text \<open>The infinity whose sign is the sign of a non-zero rational, and its opposite.\<close>

definition inf_of_sign :: "rat \<Rightarrow> jsnum" where
  "inf_of_sign a = (if a = 0 then NaN else if 0 < a then PInf else NInf)"

fun js_mul :: "jsnum \<Rightarrow> jsnum \<Rightarrow> jsnum" where
  "js_mul (Fin a) (Fin b) = Fin (a * b)"
| "js_mul (Fin a) PInf = inf_of_sign a"
| "js_mul (Fin a) NInf = inf_of_sign (- a)"
| "js_mul PInf (Fin b) = inf_of_sign b"
| "js_mul NInf (Fin b) = inf_of_sign (- b)"
| "js_mul PInf PInf = PInf"
| "js_mul PInf NInf = NInf"
| "js_mul NInf PInf = NInf"
| "js_mul NInf NInf = PInf"
| "js_mul NaN y = NaN"
| "js_mul x NaN = NaN"

fun js_div :: "jsnum \<Rightarrow> jsnum \<Rightarrow> jsnum" where
  "js_div (Fin a) (Fin b) = (if b = 0 then inf_of_sign a else Fin (a / b))"
| "js_div (Fin a) PInf = Fin 0"
| "js_div (Fin a) NInf = Fin 0"
| "js_div PInf (Fin b) = (if 0 \<le> b then PInf else NInf)"
| "js_div NInf (Fin b) = (if 0 \<le> b then NInf else PInf)"
| "js_div PInf PInf = NaN"
| "js_div PInf NInf = NaN"
| "js_div NInf PInf = NaN"
| "js_div NInf NInf = NaN"
| "js_div NaN y = NaN"
| "js_div x NaN = NaN"

text \<open>\<open>x > y\<close>: false as soon as one side is \<open>NaN\<close>.\<close>

fun js_gt :: "jsnum \<Rightarrow> jsnum \<Rightarrow> bool" where
  "js_gt (Fin a) (Fin b) = (b < a)"
| "js_gt (Fin a) PInf = False"
| "js_gt (Fin a) NInf = True"
| "js_gt PInf (Fin b) = True"
| "js_gt PInf PInf = False"
| "js_gt PInf NInf = True"
| "js_gt NInf y = False"
| "js_gt NaN y = False"
| "js_gt x NaN = False"

text \<open>\<open>Math.round\<close> rounds to the nearest integer, a tie towards \<open>+\<infinity>\<close>.\<close>

fun Math_round :: "jsnum \<Rightarrow> jsnum" where
  "Math_round (Fin a) = Fin (of_int \<lfloor>a + 1 / 2\<rfloor>)"
| "Math_round PInf = PInf"
| "Math_round NInf = NInf"
| "Math_round NaN = NaN"

text \<open>\<open>Math.max\<close> of two numbers: \<open>NaN\<close> if one of them is.\<close>

definition Math_max :: "jsnum \<Rightarrow> jsnum \<Rightarrow> jsnum" where
  "Math_max x y = (if x = NaN \<or> y = NaN then NaN else if js_gt y x then y else x)"

section \<open>Language entries\<close>

record entry =
  name :: string
  percentage :: jsnum
  color :: string

text \<open>\<open>languages.reduce((sum, lang) => sum + lang.percentage, 0)\<close>\<close>

definition sum_percentages :: "entry list \<Rightarrow> jsnum" where
  "sum_percentages languages = foldl (\<lambda>sum lang. js_add sum (percentage lang)) (Fin 0) languages"

text \<open>
  The search for the entry to adjust: a reduction over the pairs (index, percentage) that
  starts from the sentinel \<open>(-1, 0)\<close> and replaces the running maximum only by a strictly
  greater percentage.
\<close>

definition largest_step :: "int \<times> jsnum \<Rightarrow> int \<times> jsnum \<Rightarrow> int \<times> jsnum" where
  "largest_step mx cur = (if js_gt (snd cur) (snd mx) then cur else mx)"

definition largestIndex :: "jsnum list \<Rightarrow> int" where
  "largestIndex ps = fst (foldl largest_step (- 1, Fin 0) (zip (map int [0..<length ps]) ps))"

section \<open>The four operations on lists of entry values\<close>

text \<open>
  In this section an entry is a value; this is what the operations compute when the
  objects of the input array are pairwise different. The objects themselves, and what the
  operations write into them, are the subject of the section on the store below.
\<close>

definition normalizePercentages :: "entry list \<Rightarrow> entry list" where
  "normalizePercentages languages =
     (if languages = [] then []
      else let total = sum_percentages languages in
        if total = Fin 100 then languages
        else let largest = largestIndex (map percentage languages) in
          if 0 \<le> largest
          then languages[nat largest :=
                 (languages ! nat largest)\<lparr>percentage :=
                    js_add (percentage (languages ! nat largest)) (js_sub (Fin 100) total)\<rparr>]
          else languages)"

text \<open>
  \<open>newPercentage = 5\<close> is a default parameter: \<open>None\<close> stands for a call that leaves the
  argument out.
\<close>

definition addLanguageWithRedistribution ::
  "entry list \<Rightarrow> entry \<Rightarrow> jsnum option \<Rightarrow> entry list" where
  "addLanguageWithRedistribution languages newLanguage newPercentageArg =
     (let newPercentage = (case newPercentageArg of None \<Rightarrow> Fin 5 | Some p \<Rightarrow> p) in
      if languages = [] then [newLanguage\<lparr>percentage := Fin 100\<rparr>]
      else let remaining = js_sub (Fin 100) newPercentage;
               updated = map (\<lambda>lang. lang\<lparr>percentage :=
                   Math_round (js_mul (js_div (percentage lang) (Fin 100)) remaining)\<rparr>) languages;
               result = updated @ [newLanguage\<lparr>percentage := newPercentage\<rparr>]
           in normalizePercentages result)"

text \<open>\<open>languages.filter((_, i) => i !== index)\<close>\<close>

definition filter_index :: "'a list \<Rightarrow> int \<Rightarrow> 'a list" where
  "filter_index xs index = map snd (filter (\<lambda>(i, x). int i \<noteq> index) (zip [0..<length xs] xs))"

definition removeLanguageWithRedistribution :: "entry list \<Rightarrow> int \<Rightarrow> entry list" where
  "removeLanguageWithRedistribution languages indexToRemove =
     (if length languages \<le> 1 \<or> indexToRemove < 0 \<or> int (length languages) \<le> indexToRemove
      then languages
      else let removedPercentage = percentage (languages ! nat indexToRemove);
               remaining = filter_index languages indexToRemove;
               total = sum_percentages remaining;
               updated = map (\<lambda>lang. lang\<lparr>percentage :=
                   Math_round (js_add (percentage lang)
                      (js_mul (js_div (percentage lang) total) removedPercentage))\<rparr>) remaining
           in normalizePercentages updated)"

text \<open>
  \<open>Math.min(Math.max(parseInt(newPercentage) || 0, 1), 99)\<close>. \<open>parseInt\<close> is a builtin;
  the raw value enters the model as what \<open>parseInt\<close> makes of it: \<open>Some k\<close> for an
  integer, \<open>None\<close> for \<open>NaN\<close>, which \<open>|| 0\<close> turns into 0.
\<close>

definition validatedPercentage :: "int option \<Rightarrow> int" where
  "validatedPercentage parsed = min (max (case parsed of None \<Rightarrow> 0 | Some k \<Rightarrow> k) 1) 99"

text \<open>The \<open>for\<close> loop of \<open>updateLanguagePercentage\<close>, from position \<open>i\<close> on.\<close>

function rescale_loop :: "nat \<Rightarrow> int \<Rightarrow> jsnum \<Rightarrow> entry list \<Rightarrow> entry list" where
  "rescale_loop i index factor result =
     (if i < length result
      then rescale_loop (Suc i) index factor
             (if int i \<noteq> index
              then result[i := (result ! i)\<lparr>percentage :=
                     Math_max (Fin 1) (Math_round (js_mul (percentage (result ! i)) factor))\<rparr>]
              else result)
      else result)"
  by pat_completeness auto
termination
  by (relation "measure (\<lambda>(i, index, factor, result). length result - i)") auto

declare rescale_loop.simps [simp del]

definition updateLanguagePercentage :: "entry list \<Rightarrow> int \<Rightarrow> int option \<Rightarrow> entry list" where
  "updateLanguagePercentage languages index parsed =
     (if languages = [] \<or> index < 0 \<or> int (length languages) \<le> index then languages
      else let validated = Fin (of_int (validatedPercentage parsed));
               diff = js_sub validated (percentage (languages ! nat index))
           in if diff = Fin 0 then languages
              else let result = languages[nat index := (languages ! nat index)\<lparr>percentage := validated\<rparr>];
                       others = filter_index languages index;
                       othersTotal = sum_percentages others;
                       factor = js_div (js_sub othersTotal diff) othersTotal
                   in normalizePercentages (rescale_loop 0 index factor result))"

section \<open>Doubles\<close>

text \<open>
  \<open>formatLanguageBreakdown\<close> receives percentages with one decimal, which are not integers,
  so its sums are modelled as the doubles they are. A finite double is the rational it
  denotes. \<open>double_of_rat\<close> rounds a rational to the nearest double, a tie to the even
  significand: 53 bits at the exponent of the number, the exponent not below -1022, and
  an infinity from \<open>2 ^ 1024\<close> on. A sum or difference in double arithmetic is the exact
  one, rounded. The sign of zero is dropped here as well.
\<close>

definition pow2 :: "int \<Rightarrow> rat" where
  "pow2 e = (if 0 \<le> e then 2 ^ nat e else 1 / 2 ^ nat (- e))"

text \<open>For a positive \<open>x\<close>, the integer \<open>e\<close> with \<open>2 ^ e \<le> x < 2 ^ (e + 1)\<close>.\<close>

definition exponent :: "rat \<Rightarrow> int" where
  "exponent x = (let (a, b) = quotient_of x; e = bitlen a - bitlen b
                 in if pow2 e \<le> x then e else e - 1)"

definition round_half_even :: "rat \<Rightarrow> int" where
  "round_half_even z = (let f = \<lfloor>z\<rfloor>; d = z - of_int f
      in if d < 1 / 2 then f else if 1 / 2 < d then f + 1 else if even f then f else f + 1)"

definition double_of_rat :: "rat \<Rightarrow> jsnum" where
  "double_of_rat x =
     (if x = 0 then Fin 0
      else let e = max (exponent \<bar>x\<bar>) (- 1022); q = pow2 (e - 52);
               y = of_int (round_half_even (x / q)) * q
           in if 1024 \<le> exponent \<bar>y\<bar> then (if 0 < x then PInf else NInf) else Fin y)"

fun to_double :: "jsnum \<Rightarrow> jsnum" where
  "to_double (Fin x) = double_of_rat x"
| "to_double PInf = PInf"
| "to_double NInf = NInf"
| "to_double NaN = NaN"

definition fl_add :: "jsnum \<Rightarrow> jsnum \<Rightarrow> jsnum" where
  "fl_add x y = to_double (js_add x y)"

definition fl_sub :: "jsnum \<Rightarrow> jsnum \<Rightarrow> jsnum" where
  "fl_sub x y = to_double (js_sub x y)"

text \<open>The value of the double that a decimal literal such as \<open>17.1\<close> denotes.\<close>

definition nearest_double :: "rat \<Rightarrow> rat" where
  "nearest_double x = (case double_of_rat x of Fin y \<Rightarrow> y | _ \<Rightarrow> 0)"

text \<open>\<open>percentages.reduce((sum, p) => sum + p, 0)\<close> in double arithmetic.\<close>

definition sum_doubles :: "jsnum list \<Rightarrow> jsnum" where
  "sum_doubles ps = foldl fl_add (Fin 0) ps"

section \<open>Deriving the list from a mapping of language statistics\<close>

text \<open>
  \<open>formatLanguageBreakdown\<close> of \<open>src/utils/github-api.js\<close>. The statistics object is the
  list of its entries in the order \<open>Object.entries\<close> gives them, each percentage a finite
  double. \<open>Array.prototype.sort\<close> is stable, and so is \<open>sort_key\<close>; the comparator
  \<open>percentB - percentA\<close> has the sign of the exact difference, so it orders by the negated
  percentage.

  The colour table enters as the property read \<open>languageColors[name]\<close>: \<open>Undefined\<close> for a
  name the object does not have, a string, or \<open>Obj\<close> for any object or function, which is
  what a name such as \<open>constructor\<close> yields through the prototype. The operator \<open>||\<close>
  keeps a truthy value and takes \<open>'lang-other'\<close> otherwise, so the colour of a result is
  a value of this kind, and the objects built here form a record of their own; its field
  names carry a prime to keep them apart from those of \<open>entry\<close>.

  The entry to correct is found by the same reduction as in \<open>normalizePercentages\<close>, the
  object it returns being identified by its position.
\<close>

datatype jsval = Undefined | Str string | Obj

fun truthy :: "jsval \<Rightarrow> bool" where
  "truthy Undefined = False"
| "truthy (Str s) = (s \<noteq> [])"
| "truthy Obj = True"

record language =
  name' :: string
  percentage' :: jsnum
  color' :: jsval

definition formatLanguageBreakdown ::
  "(string \<times> rat) list \<Rightarrow> (string \<Rightarrow> jsval) \<Rightarrow> language list" where
  "formatLanguageBreakdown languageStats languageColors =
     (if languageStats = [] then []
      else let sortedLanguages = sort_key (\<lambda>(nm, percent). - percent) languageStats;
               formattedLanguages = map (\<lambda>(nm, percent).
                   \<lparr>name' = nm, percentage' = Fin percent,
                    color' = (if truthy (languageColors nm) then languageColors nm
                              else Str ''lang-other'')\<rparr>)
                 (take 6 sortedLanguages);
               total = sum_doubles (map percentage' formattedLanguages)
           in if total \<noteq> Fin 100 \<and> 0 < length formattedLanguages
              then let index = largestIndex (map percentage' formattedLanguages)
                   in if index \<noteq> - 1
                      then formattedLanguages[nat index :=
                             (formattedLanguages ! nat index)\<lparr>percentage' :=
                                fl_add (percentage' (formattedLanguages ! nat index))
                                       (fl_sub (Fin 100) total)\<rparr>]
                      else formattedLanguages
              else formattedLanguages)"

text \<open>
  The property read on the empty object \<open>{}\<close>: it has no property of its own, and
  inherits those of \<open>Object.prototype\<close>, which are functions or objects.
\<close>

definition empty_object :: "string \<Rightarrow> jsval" where
  "empty_object nm =
     (if nm \<in> set [''constructor'', ''toString'', ''toLocaleString'', ''valueOf'',
                    ''hasOwnProperty'', ''isPrototypeOf'', ''propertyIsEnumerable'',
                    ''__proto__'', ''__defineGetter__'', ''__defineSetter__'',
                    ''__lookupGetter__'', ''__lookupSetter__'']
      then Obj else Undefined)"

section \<open>The four operations on a store of entry objects\<close>

text \<open>
  An array of the program holds references to entry objects, and \<open>[...languages]\<close> copies
  the references, not the objects. Here the store is the list of all objects, an address
  is a position in it, an array is a list of addresses, and each operation returns its
  array together with the store it leaves behind. A new object literal is appended to the
  store.
\<close>

type_synonym addr = nat
type_synonym store = "entry list"

definition deref :: "store \<Rightarrow> addr list \<Rightarrow> entry list" where
  "deref st arr = map (\<lambda>a. st ! a) arr"

definition normalizePercentages_st :: "store \<Rightarrow> addr list \<Rightarrow> addr list \<times> store" where
  "normalizePercentages_st st languages =
     (if languages = [] then ([], st)
      else let total = sum_percentages (deref st languages) in
        if total = Fin 100 then (languages, st)
        else let largest = largestIndex (map percentage (deref st languages));
                 result = languages in
          if 0 \<le> largest
          then (result, st[result ! nat largest :=
                 (st ! (result ! nat largest))\<lparr>percentage :=
                    js_add (percentage (st ! (result ! nat largest))) (js_sub (Fin 100) total)\<rparr>])
          else (result, st))"

definition addLanguageWithRedistribution_st ::
  "store \<Rightarrow> addr list \<Rightarrow> entry \<Rightarrow> jsnum option \<Rightarrow> addr list \<times> store" where
  "addLanguageWithRedistribution_st st languages newLanguage newPercentageArg =
     (let newPercentage = (case newPercentageArg of None \<Rightarrow> Fin 5 | Some p \<Rightarrow> p) in
      if languages = [] then ([length st], st @ [newLanguage\<lparr>percentage := Fin 100\<rparr>])
      else let remaining = js_sub (Fin 100) newPercentage;
               updated = map (\<lambda>lang. lang\<lparr>percentage :=
                   Math_round (js_mul (js_div (percentage lang) (Fin 100)) remaining)\<rparr>)
                 (deref st languages);
               st' = st @ updated @ [newLanguage\<lparr>percentage := newPercentage\<rparr>];
               result = [length st..<length st + length languages + 1]
           in normalizePercentages_st st' result)"

definition removeLanguageWithRedistribution_st ::
  "store \<Rightarrow> addr list \<Rightarrow> int \<Rightarrow> addr list \<times> store" where
  "removeLanguageWithRedistribution_st st languages indexToRemove =
     (if length languages \<le> 1 \<or> indexToRemove < 0 \<or> int (length languages) \<le> indexToRemove
      then (languages, st)
      else let removedPercentage = percentage (st ! (languages ! nat indexToRemove));
               remaining = filter_index languages indexToRemove;
               total = sum_percentages (deref st remaining);
               updated = map (\<lambda>lang. lang\<lparr>percentage :=
                   Math_round (js_add (percentage lang)
                      (js_mul (js_div (percentage lang) total) removedPercentage))\<rparr>)
                 (deref st remaining);
               st' = st @ updated
           in normalizePercentages_st st' [length st..<length st + length remaining])"

function rescale_loop_st :: "nat \<Rightarrow> int \<Rightarrow> jsnum \<Rightarrow> addr list \<Rightarrow> store \<Rightarrow> store" where
  "rescale_loop_st i index factor result st =
     (if i < length result
      then rescale_loop_st (Suc i) index factor result
             (if int i \<noteq> index
              then st[result ! i := (st ! (result ! i))\<lparr>percentage :=
                     Math_max (Fin 1) (Math_round (js_mul (percentage (st ! (result ! i))) factor))\<rparr>]
              else st)
      else st)"
  by pat_completeness auto
termination
  by (relation "measure (\<lambda>(i, index, factor, result, st). length result - i)") auto

declare rescale_loop_st.simps [simp del]

definition updateLanguagePercentage_st ::
  "store \<Rightarrow> addr list \<Rightarrow> int \<Rightarrow> int option \<Rightarrow> addr list \<times> store" where
  "updateLanguagePercentage_st st languages index parsed =
     (if languages = [] \<or> index < 0 \<or> int (length languages) \<le> index then (languages, st)
      else let validated = Fin (of_int (validatedPercentage parsed));
               diff = js_sub validated (percentage (st ! (languages ! nat index)))
           in if diff = Fin 0 then (languages, st)
              else let result = languages;
                       st1 = st[result ! nat index := (st ! (result ! nat index))\<lparr>percentage := validated\<rparr>];
                       others = filter_index languages index;
                       othersTotal = sum_percentages (deref st1 others);
                       factor = js_div (js_sub othersTotal diff) othersTotal;
                       st2 = rescale_loop_st 0 index factor result st1
                   in normalizePercentages_st st2 result)"

section \<open>Notions used in the proofs\<close>

text \<open>
  What one pass of the loop does to an entry other than the edited one, and the list of
  percentages the loop leaves behind when every percentage is finite and the other entries
  do not total 0: the edited entry holds the clamped value \<open>v\<close>, every other entry its
  rescaled percentage, rounded and floored at 1.
\<close>

definition rescale_entry :: "jsnum \<Rightarrow> entry \<Rightarrow> entry" where
  "rescale_entry factor e =
     e\<lparr>percentage := Math_max (Fin 1) (Math_round (js_mul (percentage e) factor))\<rparr>"

definition rescaled_values :: "rat list \<Rightarrow> nat \<Rightarrow> rat \<Rightarrow> rat list" where
  "rescaled_values rs i v =
     (let othersTotal = sum_list rs - rs ! i;
          factor = (othersTotal - (v - rs ! i)) / othersTotal
      in map (\<lambda>j. if j = i then v else max 1 (of_int \<lfloor>rs ! j * factor + 1 / 2\<rfloor>)) [0..<length rs])"


text \<open>The object literal that \<open>formatLanguageBreakdown\<close> builds for one statistic.\<close>

definition formatted_language :: "(string \<Rightarrow> jsval) \<Rightarrow> string \<times> rat \<Rightarrow> language" where
  "formatted_language languageColors x =
     \<lparr>name' = fst x, percentage' = Fin (snd x),
      color' = (if truthy (languageColors (fst x)) then languageColors (fst x)
                else Str ''lang-other'')\<rparr>"

section \<open>Sums and the largest entry\<close>

lemma foldl_sum_fin:
  "map percentage L = map Fin rs \<Longrightarrow>
   foldl (\<lambda>sum lang. js_add sum (percentage lang)) (Fin a) L = Fin (a + sum_list rs)"
proof (induction L arbitrary: a rs)
  case Nil
  then show ?case by simp
next
  case (Cons e L)
  then obtain r rs' where rs: "rs = r # rs'" "percentage e = Fin r" "map percentage L = map Fin rs'"
    by (cases rs) auto
  show ?case using Cons.IH [OF rs(3), of "a + r"] rs by (simp add: add.assoc)
qed

lemma sum_percentages_fin:
  "map percentage L = map Fin rs \<Longrightarrow> sum_percentages L = Fin (sum_list rs)"
  using foldl_sum_fin [of L rs 0] by (simp add: sum_percentages_def)

lemma largest_fold:
  "foldl largest_step (- 1, Fin 0) (zip (map int [0..<length rs]) (map Fin rs)) = (k, m) \<Longrightarrow>
     (k = - 1 \<and> m = Fin 0 \<and> (\<forall>r\<in>set rs. r \<le> 0)) \<or>
     (\<exists>g<length rs. k = int g \<and> m = Fin (rs ! g) \<and> 0 < rs ! g \<and>
        (\<forall>j<length rs. rs ! j \<le> rs ! g) \<and> (\<forall>j<g. rs ! j < rs ! g))"
proof (induction rs arbitrary: k m rule: rev_induct)
  case Nil
  then show ?case by simp
next
  case (snoc x xs)
  obtain k' m' where prev: "foldl largest_step (- 1, Fin 0) (zip (map int [0..<length xs]) (map Fin xs)) = (k', m')"
    by (cases "foldl largest_step (- 1, Fin 0) (zip (map int [0..<length xs]) (map Fin xs))") auto
  from snoc.prems prev have step: "largest_step (k', m') (int (length xs), Fin x) = (k, m)"
    by simp
  from snoc.IH [OF prev] show ?case
  proof
    assume none: "k' = - 1 \<and> m' = Fin 0 \<and> (\<forall>r\<in>set xs. r \<le> 0)"
    show ?thesis
    proof (cases "0 < x")
      case True
      with step none have "k = int (length xs)" "m = Fin x" by (auto simp: largest_step_def)
      moreover have "\<forall>j<length (xs @ [x]). (xs @ [x]) ! j \<le> x"
        using none True by (auto simp: nth_append less_Suc_eq intro: order_trans [of _ 0])
      moreover have "\<forall>j<length xs. (xs @ [x]) ! j < x"
        using none True by (auto simp: nth_append intro: le_less_trans [of _ 0])
      ultimately show ?thesis using True by (intro disjI2 exI [of _ "length xs"]) simp
    next
      case False
      with step none show ?thesis by (auto simp: largest_step_def)
    qed
  next
    assume "\<exists>g<length xs. k' = int g \<and> m' = Fin (xs ! g) \<and> 0 < xs ! g \<and>
        (\<forall>j<length xs. xs ! j \<le> xs ! g) \<and> (\<forall>j<g. xs ! j < xs ! g)"
    then obtain g where g: "g < length xs" "k' = int g" "m' = Fin (xs ! g)" "0 < xs ! g"
        "\<forall>j<length xs. xs ! j \<le> xs ! g" "\<forall>j<g. xs ! j < xs ! g" by blast
    show ?thesis
    proof (cases "xs ! g < x")
      case True
      with step g have "k = int (length xs)" "m = Fin x" by (auto simp: largest_step_def)
      moreover have "\<forall>j<length (xs @ [x]). (xs @ [x]) ! j \<le> x"
        using g True by (auto simp: nth_append less_Suc_eq intro: order_trans [of _ "xs ! g"] less_imp_le)
      moreover have "\<forall>j<length xs. (xs @ [x]) ! j < x"
        using g True by (auto simp: nth_append intro: le_less_trans [of _ "xs ! g"])
      moreover have "0 < x" using g True by simp
      ultimately show ?thesis by (intro disjI2 exI [of _ "length xs"]) simp
    next
      case False
      with step g have km: "k = int g" "m = Fin (xs ! g)" by (auto simp: largest_step_def)
      have "\<forall>j<length (xs @ [x]). (xs @ [x]) ! j \<le> (xs @ [x]) ! g"
        using g False by (auto simp: nth_append less_Suc_eq)
      moreover have "\<forall>j<g. (xs @ [x]) ! j < (xs @ [x]) ! g"
        using g by (auto simp: nth_append)
      ultimately show ?thesis using km g by (intro disjI2 exI [of _ g]) (simp add: nth_append)
    qed
  qed
qed

lemma largestIndex_none:
  "\<forall>r\<in>set rs. r \<le> 0 \<Longrightarrow> largestIndex (map Fin rs) = - 1"
proof -
  assume a: "\<forall>r\<in>set rs. r \<le> 0"
  obtain k m where km: "foldl largest_step (- 1, Fin 0) (zip (map int [0..<length rs]) (map Fin rs)) = (k, m)"
    by (cases "foldl largest_step (- 1, Fin 0) (zip (map int [0..<length rs]) (map Fin rs))") auto
  from largest_fold [OF km] a have "k = - 1"
    by (auto simp: not_less [symmetric])
  with km show ?thesis by (simp add: largestIndex_def)
qed

lemma largestIndex_some:
  assumes "\<exists>r\<in>set rs. 0 < r"
  shows "\<exists>g<length rs. largestIndex (map Fin rs) = int g \<and> 0 < rs ! g \<and>
        (\<forall>j<length rs. rs ! j \<le> rs ! g) \<and> (\<forall>j<g. rs ! j < rs ! g)"
proof -
  obtain k m where km: "foldl largest_step (- 1, Fin 0) (zip (map int [0..<length rs]) (map Fin rs)) = (k, m)"
    by (cases "foldl largest_step (- 1, Fin 0) (zip (map int [0..<length rs]) (map Fin rs))") auto
  from largest_fold [OF km] assms
  obtain g where "g<length rs" "k = int g" "0 < rs ! g" 
        "(\<forall>j<length rs. rs ! j \<le> rs ! g)" "(\<forall>j<g. rs ! j < rs ! g)"
    by (auto simp: not_less [symmetric])
  with km show ?thesis by (auto simp: largestIndex_def)
qed

lemma sum_list_update_rat:
  fixes rs :: "rat list"
  shows "g < length rs \<Longrightarrow> sum_list (rs[g := x]) = sum_list rs - rs ! g + x"
  by (induction rs arbitrary: g) (auto split: nat.splits)

lemma map_percentage_update:
  "map percentage L = map Fin rs \<Longrightarrow>
   map percentage (L[g := (L ! g)\<lparr>percentage := Fin x\<rparr>]) = map Fin (rs[g := x])"
  by (simp add: map_update)

lemma percentage_nth:
  "map percentage L = map Fin rs \<Longrightarrow> g < length rs \<Longrightarrow> percentage (L ! g) = Fin (rs ! g)"
  by (metis length_map nth_map)

lemma normalize_total_100:
  "L \<noteq> [] \<Longrightarrow> sum_percentages L = Fin 100 \<Longrightarrow> normalizePercentages L = L"
  by (simp add: normalizePercentages_def)


lemma normalize_adjusts:
  assumes L: "map percentage L = map Fin rs" and ne: "sum_list rs \<noteq> 100" and pos: "\<exists>r\<in>set rs. 0 < r"
  shows "\<exists>g<length L. largestIndex (map percentage L) = int g \<and> 0 < rs ! g \<and>
           (\<forall>j<length rs. rs ! j \<le> rs ! g) \<and> (\<forall>j<g. rs ! j < rs ! g) \<and>
           normalizePercentages L = L[g := (L ! g)\<lparr>percentage := Fin (rs ! g + (100 - sum_list rs))\<rparr>]"
proof -
  from largestIndex_some [OF pos] obtain g where g: "g < length rs"
      "largestIndex (map Fin rs) = int g" "0 < rs ! g"
      "\<forall>j<length rs. rs ! j \<le> rs ! g" "\<forall>j<g. rs ! j < rs ! g" by blast
  have len: "length L = length rs" using L by (metis length_map)
  have nonempty: "L \<noteq> []" using g len by auto
  have tot: "sum_percentages L = Fin (sum_list rs)" by (rule sum_percentages_fin [OF L])
  have pg: "percentage (L ! g) = Fin (rs ! g)" by (rule percentage_nth [OF L g(1)])
  have "normalizePercentages L = L[g := (L ! g)\<lparr>percentage := Fin (rs ! g + (100 - sum_list rs))\<rparr>]"
    using nonempty tot ne g(2) pg L by (simp add: normalizePercentages_def Let_def js_sub_def)
  with g len L show ?thesis by auto
qed

lemma normalize_sum:
  assumes L: "map percentage L = map Fin rs" and pos: "\<exists>r\<in>set rs. 0 < r"
  shows "sum_percentages (normalizePercentages L) = Fin 100"
proof (cases "sum_list rs = 100")
  case True
  have "L \<noteq> []" using L pos by auto
  then show ?thesis using True sum_percentages_fin [OF L] by (simp add: normalizePercentages_def)
next
  case False
  from normalize_adjusts [OF L False pos] obtain g where g: "g < length L"
    "normalizePercentages L = L[g := (L ! g)\<lparr>percentage := Fin (rs ! g + (100 - sum_list rs))\<rparr>]"
    by blast
  have len: "length L = length rs" using L by (metis length_map)
  have "map percentage (normalizePercentages L) = map Fin (rs[g := rs ! g + (100 - sum_list rs)])"
    using g(2) map_percentage_update [OF L] by simp
  from sum_percentages_fin [OF this] show ?thesis
    using g(1) len by (simp add: sum_list_update_rat)
qed

lemma map_Fin_of_int: "map (\<lambda>k. Fin (of_int k)) ks = map Fin (map of_int ks)"
  by simp

lemma sum_list_of_int_rat: "sum_list (map of_int ks) = (of_int (sum_list ks) :: rat)"
  by (induction ks) auto

lemma validated_bounds: "1 \<le> validatedPercentage parsed \<and> validatedPercentage parsed \<le> 99"
  by (simp add: validatedPercentage_def)

lemma rescale_loop_done: "length result \<le> i \<Longrightarrow> rescale_loop i index factor result = result"
  by (subst rescale_loop.simps) simp

lemma js_sub_eq_zero: "js_sub (Fin v) p = Fin 0 \<longleftrightarrow> p = Fin v"
  by (cases p) (auto simp: js_sub_def)

lemma normalize_singleton:
  assumes "0 < v" 
  shows "normalizePercentages [e\<lparr>percentage := Fin v\<rparr>] = [e\<lparr>percentage := Fin 100\<rparr>]"
  using assms
  by (simp add: normalizePercentages_def sum_percentages_def largestIndex_def largest_step_def js_sub_def Let_def)

section \<open>Claims about \<open>normalizePercentages\<close>\<close>







section \<open>Claims about \<open>addLanguageWithRedistribution\<close>\<close>

text \<open>
  Claim C7. Adding C at share 5 to A at 70 and B at 30 gives A, B, C in this order with
  A at 66, B at 29 and C at 5: the rescaled values 66.5 and 28.5 round to 67 and 29, the
  total is 101, and the normalization takes 1 from A. The result totals 100. On the empty
  list the new entry is returned alone at 100.
\<close>

theorem addEntry_scenario:
  "addLanguageWithRedistribution
      [\<lparr>name = ''A'', percentage = Fin 70, color = ''a''\<rparr>,
       \<lparr>name = ''B'', percentage = Fin 30, color = ''b''\<rparr>]
      \<lparr>name = ''C'', percentage = p, color = ''c''\<rparr> (Some (Fin 5))
    = [\<lparr>name = ''A'', percentage = Fin 66, color = ''a''\<rparr>,
       \<lparr>name = ''B'', percentage = Fin 29, color = ''b''\<rparr>,
       \<lparr>name = ''C'', percentage = Fin 5, color = ''c''\<rparr>]
   \<and> sum_percentages
      [\<lparr>name = ''A'', percentage = Fin 66, color = ''a''\<rparr>,
       \<lparr>name = ''B'', percentage = Fin 29, color = ''b''\<rparr>,
       \<lparr>name = ''C'', percentage = Fin 5, color = ''c''\<rparr>] = Fin 100
   \<and> addLanguageWithRedistribution [] newLanguage newPercentage
       = [newLanguage\<lparr>percentage := Fin 100\<rparr>]"
  by (simp add: addLanguageWithRedistribution_def normalizePercentages_def sum_percentages_def
        largestIndex_def largest_step_def js_sub_def Let_def upt_rec)

section \<open>Claims about \<open>updateLanguagePercentage\<close>\<close>

lemma update_one_entry:
  assumes "percentage e \<noteq> Fin (of_int (validatedPercentage parsed))"
  shows "updateLanguagePercentage [e] 0 parsed = [e\<lparr>percentage := Fin 100\<rparr>]"
proof -
  let ?v = "validatedPercentage parsed"
  have diff: "js_sub (Fin (of_int ?v)) (percentage e) \<noteq> Fin 0"
    using assms by (simp add: js_sub_eq_zero)
  have loop: "rescale_loop 0 0 f [e\<lparr>percentage := Fin (of_int ?v)\<rparr>] = [e\<lparr>percentage := Fin (of_int ?v)\<rparr>]" for f
    by (subst rescale_loop.simps) (simp add: rescale_loop_done)
  have pos: "(0::rat) < of_int ?v" using validated_bounds [of parsed] by simp
  show ?thesis using diff
    by (simp add: updateLanguagePercentage_def Let_def loop normalize_singleton [OF pos])
qed

text \<open>
  Claim C10. On a list of one entry, an edit whose clamped value differs from the entry's
  percentage is undone by the final normalization: the result is the one entry at 100,
  whatever value was asked for.
\<close>

theorem update_single_entry:
  assumes "percentage e \<noteq> Fin (of_int (validatedPercentage parsed))"
  shows "updateLanguagePercentage [e] 0 parsed = [e\<lparr>percentage := Fin 100\<rparr>]"
  using assms by (rule update_one_entry)

theorem update_single_entry_witness:
  "percentage \<lparr>name = ''A'', percentage = Fin 100, color = ''a''\<rparr> \<noteq> Fin (of_int (validatedPercentage (Some 40))) \<and>
   updateLanguagePercentage [\<lparr>name = ''A'', percentage = Fin 100, color = ''a''\<rparr>] 0 (Some 40)
     = [\<lparr>name = ''A'', percentage = Fin 100, color = ''a''\<rparr>]"
proof -
  have h: "percentage \<lparr>name = ''A'', percentage = Fin 100, color = ''a''\<rparr> \<noteq> Fin (of_int (validatedPercentage (Some 40)))"
    by (simp add: validatedPercentage_def)
  show ?thesis using h update_single_entry [OF h] by simp
qed

section \<open>Claims about the guards\<close>

text \<open>
  Claim C6, as stated, fails where the current percentage lies outside the clamp: entry A
  holds 0, the value 0 is clamped to 1, and the edit is carried out, so A at 0 and B at 100
  become A at 1 and B at 99.
\<close>

theorem update_current_value_counterexample:
  "updateLanguagePercentage
      [\<lparr>name = ''A'', percentage = Fin 0, color = ''a''\<rparr>,
       \<lparr>name = ''B'', percentage = Fin 100, color = ''b''\<rparr>] 0 (Some 0)
    = [\<lparr>name = ''A'', percentage = Fin 1, color = ''a''\<rparr>,
       \<lparr>name = ''B'', percentage = Fin 99, color = ''b''\<rparr>]
   \<and> updateLanguagePercentage
      [\<lparr>name = ''A'', percentage = Fin 0, color = ''a''\<rparr>,
       \<lparr>name = ''B'', percentage = Fin 100, color = ''b''\<rparr>] 0 (Some 0)
    \<noteq> [\<lparr>name = ''A'', percentage = Fin 0, color = ''a''\<rparr>,
       \<lparr>name = ''B'', percentage = Fin 100, color = ''b''\<rparr>]"
  by (simp add: updateLanguagePercentage_def validatedPercentage_def filter_index_def
        rescale_loop.simps normalizePercentages_def sum_percentages_def
        largestIndex_def largest_step_def js_sub_def Math_max_def Let_def upt_rec)

text \<open>
  Claim C6, amended. \<open>removeLanguageWithRedistribution\<close> returns its input when the list has
  at most one entry or the index is outside the list; \<open>updateLanguagePercentage\<close> returns
  its input when the list is empty or the index is outside the list; and it returns its
  input when the value passed is the entry's current percentage and that percentage is an
  integer between 1 and 99.
\<close>

theorem noop_guards:
  "(length languages \<le> 1 \<or> index < 0 \<or> int (length languages) \<le> index \<longrightarrow>
      removeLanguageWithRedistribution languages index = languages) \<and>
   (languages = [] \<or> index < 0 \<or> int (length languages) \<le> index \<longrightarrow>
      updateLanguagePercentage languages index parsed = languages) \<and>
   (0 \<le> index \<and> index < int (length languages) \<and>
    percentage (languages ! nat index) = Fin (of_int k) \<and> 1 \<le> k \<and> k \<le> 99 \<longrightarrow>
      updateLanguagePercentage languages index (Some k) = languages)"
proof -
  have a: "removeLanguageWithRedistribution languages index = languages"
    if "length languages \<le> 1 \<or> index < 0 \<or> int (length languages) \<le> index"
    using that by (simp add: removeLanguageWithRedistribution_def)
  have b: "updateLanguagePercentage languages index parsed = languages"
    if "languages = [] \<or> index < 0 \<or> int (length languages) \<le> index"
    using that by (simp add: updateLanguagePercentage_def)
  have c: "updateLanguagePercentage languages index (Some k) = languages"
    if "percentage (languages ! nat index) = Fin (of_int k)" "1 \<le> k" "k \<le> 99"
  proof -
    have "validatedPercentage (Some k) = k" using that(2,3) by (simp add: validatedPercentage_def)
    then show ?thesis using that(1)
      by (simp add: updateLanguagePercentage_def Let_def js_sub_def)
  qed
  from a b c show ?thesis by blast
qed

theorem noop_guards_witness:
  "removeLanguageWithRedistribution [\<lparr>name = ''A'', percentage = Fin 100, color = ''a''\<rparr>] 0
     = [\<lparr>name = ''A'', percentage = Fin 100, color = ''a''\<rparr>]
   \<and> updateLanguagePercentage
        [\<lparr>name = ''A'', percentage = Fin 60, color = ''a''\<rparr>,
         \<lparr>name = ''B'', percentage = Fin 40, color = ''b''\<rparr>] 2 (Some 10)
     = [\<lparr>name = ''A'', percentage = Fin 60, color = ''a''\<rparr>,
        \<lparr>name = ''B'', percentage = Fin 40, color = ''b''\<rparr>]
   \<and> updateLanguagePercentage
        [\<lparr>name = ''A'', percentage = Fin 60, color = ''a''\<rparr>,
         \<lparr>name = ''B'', percentage = Fin 40, color = ''b''\<rparr>] 1 (Some 40)
     = [\<lparr>name = ''A'', percentage = Fin 60, color = ''a''\<rparr>,
        \<lparr>name = ''B'', percentage = Fin 40, color = ''b''\<rparr>]"
  using noop_guards [of "[\<lparr>name = ''A'', percentage = Fin 100, color = ''a''\<rparr>]" 0 None 1]
        noop_guards [of "[\<lparr>name = ''A'', percentage = Fin 60, color = ''a''\<rparr>,
         \<lparr>name = ''B'', percentage = Fin 40, color = ''b''\<rparr>]" 2 "Some 10" 1]
        noop_guards [of "[\<lparr>name = ''A'', percentage = Fin 60, color = ''a''\<rparr>,
         \<lparr>name = ''B'', percentage = Fin 40, color = ''b''\<rparr>]" 1 None 40]
  by simp

section \<open>The rescaling loop and the entries it leaves out\<close>

lemma rescale_loop_length: "length (rescale_loop i index factor result) = length result"
proof (induction i index factor result rule: rescale_loop.induct)
  case (1 i index factor result)
  show ?case
  proof (cases "i < length result")
    case True
    then show ?thesis using "1.IH" by (subst rescale_loop.simps) simp
  next
    case False
    then show ?thesis by (simp add: rescale_loop_done)
  qed
qed

lemma rescale_loop_nth:
  "j < length result \<Longrightarrow>
   rescale_loop i index factor result ! j =
     (if i \<le> j \<and> int j \<noteq> index then rescale_entry factor (result ! j) else result ! j)"
proof (induction i index factor result rule: rescale_loop.induct)
  case (1 i index factor result)
  show ?case
  proof (cases "i < length result")
    case True
    let ?res' = "if int i \<noteq> index
       then result[i := (result ! i)\<lparr>percentage :=
               Math_max (Fin 1) (Math_round (js_mul (percentage (result ! i)) factor))\<rparr>]
       else result"
    have len: "j < length ?res'" using "1.prems" by simp
    have unfold: "rescale_loop i index factor result = rescale_loop (Suc i) index factor ?res'"
      using True by (subst rescale_loop.simps) simp
    have "rescale_loop (Suc i) index factor ?res' ! j =
        (if Suc i \<le> j \<and> int j \<noteq> index then rescale_entry factor (?res' ! j) else ?res' ! j)"
      using "1.IH" [OF True len] .
    then show ?thesis using True "1.prems" unfolding unfold
      by (cases "j = i") (auto simp: rescale_entry_def)
  next
    case False
    then show ?thesis using "1.prems" by (simp add: rescale_loop_done)
  qed
qed

lemma filter_enumerate_keep_all:
  "i < a \<Longrightarrow> map snd (filter (\<lambda>(j, x). int j \<noteq> int i) (enumerate a xs)) = xs"
  by (induction xs arbitrary: a) auto

lemma filter_enumerate_offset:
  "i < length xs \<Longrightarrow>
   map snd (filter (\<lambda>(j, x). int j \<noteq> int (a + i)) (enumerate a xs))
     = take i xs @ drop (Suc i) xs"
proof (induction xs arbitrary: a i)
  case Nil
  then show ?case by simp
next
  case (Cons x xs)
  show ?case
  proof (cases i)
    case 0
    then show ?thesis using filter_enumerate_keep_all [of a "Suc a" xs] by simp
  next
    case (Suc i')
    then have "i' < length xs" using Cons.prems by simp
    from Cons.IH [OF this, of "Suc a"] show ?thesis using Suc by simp
  qed
qed

lemma filter_index_eq:
  "i < length xs \<Longrightarrow> filter_index xs (int i) = take i xs @ drop (Suc i) xs"
  using filter_enumerate_offset [of i xs 0] by (simp add: filter_index_def enumerate_eq_zip)

lemma sum_list_without:
  fixes rs :: "rat list"
  shows "i < length rs \<Longrightarrow> sum_list (take i rs @ drop (Suc i) rs) = sum_list rs - rs ! i"
proof -
  assume "i < length rs"
  then have "rs = take i rs @ rs ! i # drop (Suc i) rs" by (rule id_take_nth_drop)
  then have "sum_list rs = sum_list (take i rs @ rs ! i # drop (Suc i) rs)" by simp
  then show ?thesis by simp
qed

lemma sum_percentages_others:
  assumes "map percentage L = map Fin rs" "i < length rs"
  shows "sum_percentages (filter_index L (int i)) = Fin (sum_list rs - rs ! i)"
proof -
  have len: "length L = length rs" using assms(1) by (metis length_map)
  have "map percentage (filter_index L (int i)) = map Fin (take i rs @ drop (Suc i) rs)"
    using assms len by (simp add: filter_index_eq take_map [symmetric] drop_map [symmetric])
  from sum_percentages_fin [OF this] show ?thesis using sum_list_without [OF assms(2)] by simp
qed

lemma Math_max_Fin: "Math_max (Fin a) (Fin b) = Fin (max a b)"
  by (simp add: Math_max_def max_def)

lemma rescale_entry_Fin:
  "percentage e = Fin r \<Longrightarrow>
   percentage (rescale_entry (Fin f) e) = Fin (max 1 (of_int \<lfloor>r * f + 1 / 2\<rfloor>))"
  by (simp add: rescale_entry_def Math_max_Fin)

lemma update_unfold:
  assumes L: "map percentage L = map Fin rs" and i: "i < length rs"
    and v: "v = of_int (validatedPercentage parsed)" and diff: "v \<noteq> rs ! i"
    and oT: "sum_list rs - rs ! i \<noteq> 0"
  shows "\<exists>R. updateLanguagePercentage L (int i) parsed = normalizePercentages R \<and>
             length R = length L \<and> map percentage R = map Fin (rescaled_values rs i v)"
proof -
  let ?oT = "sum_list rs - rs ! i"
  let ?f = "(?oT - (v - rs ! i)) / ?oT"
  let ?L' = "L[i := (L ! i)\<lparr>percentage := Fin v\<rparr>]"
  let ?R = "rescale_loop 0 (int i) (Fin ?f) ?L'"
  have len: "length L = length rs" using L by (metis length_map)
  have pi: "percentage (L ! i) = Fin (rs ! i)" by (rule percentage_nth [OF L i])
  have d: "js_sub (Fin v) (Fin (rs ! i)) = Fin (v - rs ! i)" by (simp add: js_sub_def)
  have dne: "Fin (v - rs ! i) \<noteq> Fin 0" using diff by simp
  have tot: "sum_percentages (filter_index L (int i)) = Fin ?oT"
    by (rule sum_percentages_others [OF L i])
  have fac: "js_div (js_sub (Fin ?oT) (Fin (v - rs ! i))) (Fin ?oT) = Fin ?f"
    using oT by (simp add: js_sub_def)
  have ne: "L \<noteq> []" using i len by auto
  have upd: "updateLanguagePercentage L (int i) parsed = normalizePercentages ?R"
    using ne i len pi d dne tot fac v [symmetric]
    by (simp add: updateLanguagePercentage_def Let_def)
  have lenR: "length ?R = length L" by (simp add: rescale_loop_length)
  have "map percentage ?R = map Fin (rescaled_values rs i v)"
  proof (rule nth_equalityI)
    show "length (map percentage ?R) = length (map Fin (rescaled_values rs i v))"
      using lenR len by (simp add: rescaled_values_def Let_def)
  next
    fix j assume "j < length (map percentage ?R)"
    then have j: "j < length rs" using lenR len by simp
    then have j': "j < length ?L'" using len by simp
    show "map percentage ?R ! j = map Fin (rescaled_values rs i v) ! j"
    proof (cases "j = i")
      case True
      then show ?thesis using j j' len lenR rescale_loop_nth [OF j', of 0 "int i" "Fin ?f"]
        by (simp add: rescaled_values_def Let_def)
    next
      case False
      have pj: "percentage (L ! j) = Fin (rs ! j)" by (rule percentage_nth [OF L j])
      have "?R ! j = rescale_entry (Fin ?f) (L ! j)"
        using False rescale_loop_nth [OF j', of 0 "int i" "Fin ?f"] by simp
      then have "percentage (?R ! j) = Fin (max 1 (of_int \<lfloor>rs ! j * ?f + 1 / 2\<rfloor>))"
        using rescale_entry_Fin [OF pj, of ?f] by simp
      then show ?thesis using False j len lenR
        by (simp add: rescaled_values_def Let_def)
    qed
  qed
  with upd lenR show ?thesis by blast
qed

lemma normalize_changes_one:
  "\<exists>g. length (normalizePercentages R) = length R \<and>
       (\<forall>j. j \<noteq> g \<longrightarrow> normalizePercentages R ! j = R ! j)"
  by (rule exI [of _ "nat (largestIndex (map percentage R))"])
     (simp add: normalizePercentages_def Let_def)

lemma rescaled_values_length: "length (rescaled_values rs i v) = length rs"
  by (simp add: rescaled_values_def Let_def)

lemma rescaled_values_target: "i < length rs \<Longrightarrow> rescaled_values rs i v ! i = v"
  by (simp add: rescaled_values_def Let_def)

lemma rescaled_values_other:
  "j < length rs \<Longrightarrow> j \<noteq> i \<Longrightarrow>
   \<exists>m\<ge>1. rescaled_values rs i v ! j = of_int m \<and>
     m = max 1 \<lfloor>rs ! j * ((sum_list rs - rs ! i - (v - rs ! i)) / (sum_list rs - rs ! i)) + 1 / 2\<rfloor>"
  by (simp add: rescaled_values_def Let_def)

lemma nth_in_others:
  assumes "j < length xs" "j \<noteq> i"
  shows "xs ! j \<in> set (take i xs @ drop (Suc i) xs)"
proof (cases "j < i")
  case True
  then have "take i xs ! j = xs ! j" "j < length (take i xs)" using assms by auto
  then show ?thesis by (metis UnI1 nth_mem set_append)
next
  case False
  then have ji: "Suc i \<le> j" using assms by simp
  then have "drop (Suc i) xs ! (j - Suc i) = xs ! j" "j - Suc i < length (drop (Suc i) xs)"
    using assms by auto
  then show ?thesis by (metis UnI2 nth_mem set_append)
qed

lemma others_from_nth:
  assumes "x \<in> set (take i xs @ drop (Suc i) xs)"
  shows "\<exists>j<length xs. j \<noteq> i \<and> x = xs ! j"
proof -
  from assms consider "x \<in> set (take i xs)" | "x \<in> set (drop (Suc i) xs)" by auto
  then show ?thesis
  proof cases
    case 1
    then obtain j where "j < length (take i xs)" "take i xs ! j = x" by (auto simp: in_set_conv_nth)
    then show ?thesis by (intro exI [of _ j]) auto
  next
    case 2
    then obtain j where j: "j < length (drop (Suc i) xs)" "drop (Suc i) xs ! j = x"
      by (auto simp: in_set_conv_nth)
    then show ?thesis by (intro exI [of _ "Suc i + j"]) auto
  qed
qed

lemma member_le_sum_list_rat:
  fixes xs :: "rat list"
  shows "\<forall>r\<in>set xs. 0 \<le> r \<Longrightarrow> x \<in> set xs \<Longrightarrow> x \<le> sum_list xs"
proof (induction xs)
  case Nil
  then show ?case by simp
next
  case (Cons a xs)
  have nn: "0 \<le> sum_list xs" using Cons.prems(1) by (intro sum_list_nonneg) auto
  show ?case
  proof (cases "x = a")
    case True
    then show ?thesis using nn by simp
  next
    case False
    then have "x \<le> sum_list xs" using Cons by auto
    moreover have "0 \<le> a" using Cons.prems(1) by simp
    ultimately show ?thesis by simp
  qed
qed

lemma nonneg_le_others:
  fixes rs :: "rat list"
  assumes "\<forall>r\<in>set rs. 0 \<le> r" "j < length rs" "i < length rs" "j \<noteq> i"
  shows "rs ! j \<le> sum_list rs - rs ! i"
proof -
  have "\<forall>r\<in>set (take i rs @ drop (Suc i) rs). 0 \<le> r"
    using assms(1) by (auto dest: in_set_takeD in_set_dropD)
  from member_le_sum_list_rat [OF this nth_in_others [OF assms(2,4)]]
  show ?thesis using sum_list_without [OF assms(3)] by simp
qed

lemma sum_list_less_bound:
  fixes xs :: "rat list"
  shows "xs \<noteq> [] \<Longrightarrow> \<forall>x\<in>set xs. x < c \<Longrightarrow> sum_list xs < c * of_nat (length xs)"
proof (induction xs rule: list_nonempty_induct)
  case (single x)
  then show ?case by simp
next
  case (cons x xs)
  then have "sum_list xs < c * of_nat (length xs)" "x < c" by auto
  then have "x + sum_list xs < c + c * of_nat (length xs)" by (rule add_strict_mono [rotated])
  then show ?case by (simp add: algebra_simps)
qed

lemma update_noop_current:
  assumes "percentage (L ! nat index) = Fin (of_int k)" "1 \<le> k" "k \<le> 99"
    "0 \<le> index" "index < int (length L)"
  shows "updateLanguagePercentage L index (Some k) = L"
proof -
  have "validatedPercentage (Some k) = k" using assms(2,3) by (simp add: validatedPercentage_def)
  then show ?thesis using assms(1)
    by (simp add: updateLanguagePercentage_def Let_def js_sub_def)
qed

lemma validated_500: "validatedPercentage (Some 500) = 99"
  by (simp add: validatedPercentage_def)

lemma validated_minus_10: "validatedPercentage (Some (- 10)) = 1"
  by (simp add: validatedPercentage_def)

lemma rescaled_values_nth:
  "j < length rs \<Longrightarrow> rescaled_values rs i v ! j =
     (if j = i then v
      else max 1 (of_int \<lfloor>rs ! j * ((sum_list rs - rs ! i - (v - rs ! i)) / (sum_list rs - rs ! i)) + 1 / 2\<rfloor>))"
  by (simp add: rescaled_values_def Let_def)

lemma update_to_99:
  fixes rs :: "rat list"
  assumes L: "map percentage L = map Fin rs" and i: "i < length rs"
    and nonneg: "\<forall>r\<in>set rs. 0 \<le> r" and sum: "sum_list rs = 100"
    and ne100: "rs ! i \<noteq> 100" and ne99: "rs ! i \<noteq> 99"
  shows "percentage (updateLanguagePercentage L (int i) (Some 500) ! i)
           = Fin (101 - of_nat (length rs))"
proof -
  let ?n = "length rs"
  let ?rs' = "rescaled_values rs i 99"
  have len: "length L = ?n" using L by (metis length_map)
  have oT: "sum_list rs - rs ! i \<noteq> 0" using sum ne100 by simp
  have v: "(99::rat) = of_int (validatedPercentage (Some 500))" by (simp add: validated_500)
  from update_unfold [OF L i v ne99 [symmetric] oT] obtain R where R:
    "updateLanguagePercentage L (int i) (Some 500) = normalizePercentages R"
    "length R = length L" "map percentage R = map Fin ?rs'" by blast
  have others: "?rs' ! j = 1" if j: "j < ?n" "j \<noteq> i" for j
  proof -
    let ?oT = "sum_list rs - rs ! i"
    have "0 \<le> rs ! j" using nonneg j(1) by simp
    then have "0 \<le> ?oT" using nonneg_le_others [OF nonneg j(1) i j(2)] by simp
    then have pos: "0 < ?oT" using oT by simp
    have le: "rs ! j \<le> ?oT" by (rule nonneg_le_others [OF nonneg j(1) i j(2)])
    have fac: "(?oT - (99 - rs ! i)) / ?oT = 1 / ?oT" using sum by simp
    have "rs ! j * (1 / ?oT) \<le> 1" using le pos by (simp add: divide_le_eq)
    then have "rs ! j * (1 / ?oT) + 1 / 2 < of_int 2" by simp
    then have "\<lfloor>rs ! j * (1 / ?oT) + 1 / 2\<rfloor> < 2" by (simp only: floor_less_iff)
    then have "max 1 \<lfloor>rs ! j * (1 / ?oT) + 1 / 2\<rfloor> = 1" by simp
    then have one: "max 1 (of_int \<lfloor>rs ! j * (1 / ?oT) + 1 / 2\<rfloor>) = (1::rat)"
      by (metis of_int_1 of_int_max)
    have "?rs' ! j = max 1 (of_int \<lfloor>rs ! j * ((?oT - (99 - rs ! i)) / ?oT) + 1 / 2\<rfloor>)"
      using rescaled_values_nth [OF j(1), of i 99] j(2) by (simp only: if_False)
    also have "\<dots> = max 1 (of_int \<lfloor>rs ! j * (1 / ?oT) + 1 / 2\<rfloor>)" by (simp only: fac)
    finally show ?thesis using one by simp
  qed
  have target: "?rs' ! i = 99" by (rule rescaled_values_target [OF i])
  have eq: "?rs' = (replicate ?n 1)[i := 99]"
  proof (rule nth_equalityI)
    show "length ?rs' = length ((replicate ?n 1)[i := 99 :: rat])"
      by (simp add: rescaled_values_length)
  next
    fix j assume "j < length ?rs'"
    then have j: "j < ?n" by (simp add: rescaled_values_length)
    show "?rs' ! j = (replicate ?n 1)[i := 99] ! j"
      using j i others [OF j] target by (cases "j = i") auto
  qed
  have total: "sum_list ?rs' = of_nat ?n + 98"
    using i by (simp add: eq sum_list_update_rat sum_list_replicate)
  have pi: "percentage (R ! i) = Fin 99"
    using percentage_nth [OF R(3)] i target by (simp add: rescaled_values_length)
  show ?thesis
  proof (cases "?n = 2")
    case True
    have "sum_percentages R = Fin 100" using sum_percentages_fin [OF R(3)] total True by simp
    moreover have "R \<noteq> []" using R(2) len i by auto
    ultimately have "normalizePercentages R = R" by (rule normalize_total_100 [rotated])
    then show ?thesis using R(1) pi True by simp
  next
    case False
    then have "(of_nat ?n :: rat) \<noteq> of_nat 2" by (simp only: of_nat_eq_iff) simp
    then have ne: "sum_list ?rs' \<noteq> 100" using total by simp
    have "?rs' ! i \<in> set ?rs'" using i by (simp add: rescaled_values_length)
    then have pos: "\<exists>r\<in>set ?rs'. 0 < r" using target by (intro bexI [of _ "?rs' ! i"]) simp_all
    from normalize_adjusts [OF R(3) ne pos] obtain g where g: "g < length R"
      "\<forall>j<length ?rs'. ?rs' ! j \<le> ?rs' ! g"
      "normalizePercentages R = R[g := (R ! g)\<lparr>percentage := Fin (?rs' ! g + (100 - sum_list ?rs'))\<rparr>]"
      by blast
    have "g = i"
    proof (rule ccontr)
      assume "g \<noteq> i"
      then have "?rs' ! g = 1" using others g(1) R(2) len by simp
      moreover have "?rs' ! i \<le> ?rs' ! g" using g(2) i by (simp add: rescaled_values_length)
      ultimately show False using target by simp
    qed
    then have "percentage (normalizePercentages R ! i) = Fin (99 + (100 - (of_nat ?n + 98)))"
      using g(1,3) target total by simp
    then show ?thesis using R(1) by simp
  qed
qed

lemma update_to_1:
  fixes rs :: "rat list"
  assumes L: "map percentage L = map Fin rs" and i: "i < length rs"
    and sum: "sum_list rs = 100"
    and ne100: "rs ! i \<noteq> 100" and ne1: "rs ! i \<noteq> 1"
    and cond: "0 < i \<or> length rs \<le> 67"
  shows "percentage (updateLanguagePercentage L (int i) (Some (- 10)) ! i) = Fin 1"
proof -
  let ?n = "length rs"
  let ?rs' = "rescaled_values rs i 1"
  let ?oT = "sum_list rs - rs ! i"
  let ?f = "(?oT - (1 - rs ! i)) / ?oT"
  have len: "length L = ?n" using L by (metis length_map)
  have oT: "?oT \<noteq> 0" using sum ne100 by simp
  have v: "(1::rat) = of_int (validatedPercentage (Some (- 10)))" by (simp add: validated_minus_10)
  from update_unfold [OF L i v ne1 [symmetric] oT] obtain R where R:
    "updateLanguagePercentage L (int i) (Some (- 10)) = normalizePercentages R"
    "length R = length L" "map percentage R = map Fin ?rs'" by blast
  have target: "?rs' ! i = 1" by (rule rescaled_values_target [OF i])
  have pi: "percentage (R ! i) = Fin 1"
    using percentage_nth [OF R(3)] i target by (simp add: rescaled_values_length)
  have Rne: "R \<noteq> []" using R(2) len i by auto
  show ?thesis
  proof (cases "sum_list ?rs' = 100")
    case True
    then have "sum_percentages R = Fin 100" using sum_percentages_fin [OF R(3)] by simp
    with Rne have "normalizePercentages R = R" by (rule normalize_total_100)
    then show ?thesis using R(1) pi by simp
  next
    case False
    have "?rs' ! i \<in> set ?rs'" using i by (simp add: rescaled_values_length)
    then have pos: "\<exists>r\<in>set ?rs'. 0 < r" using target by (intro bexI [of _ "?rs' ! i"]) simp_all
    from normalize_adjusts [OF R(3) False pos] obtain g where g: "g < length R"
      "\<forall>j<length ?rs'. ?rs' ! j \<le> ?rs' ! g" "\<forall>j<g. ?rs' ! j < ?rs' ! g"
      "normalizePercentages R = R[g := (R ! g)\<lparr>percentage := Fin (?rs' ! g + (100 - sum_list ?rs'))\<rparr>]"
      by blast
    have "g \<noteq> i"
    proof
      assume gi: "g = i"
      from cond show False
      proof
        assume "0 < i"
        then have lt: "?rs' ! 0 < 1" using g(3) gi target by simp
        have "0 < ?n" "0 \<noteq> i" using i \<open>0 < i\<close> by auto
        from rescaled_values_other [OF this, of 1] obtain m :: int where "1 \<le> m" "?rs' ! 0 = of_int m"
          by blast
        then show False using lt by simp
      next
        assume small: "?n \<le> 67"
        let ?others = "take i rs @ drop (Suc i) rs"
        have bound: "\<forall>x\<in>set (map (\<lambda>x. x * ?f) ?others). x < 3 / 2"
        proof
          fix y assume "y \<in> set (map (\<lambda>x. x * ?f) ?others)"
          then obtain x where x: "x \<in> set ?others" "y = x * ?f" by auto
          from others_from_nth [OF x(1)] obtain j where j: "j < ?n" "j \<noteq> i" "x = rs ! j" by blast
          have "?rs' ! j \<le> 1" using g(2) gi target j(1) by (simp add: rescaled_values_length)
          moreover have "?rs' ! j = max 1 (of_int \<lfloor>rs ! j * ?f + 1 / 2\<rfloor>)"
            using rescaled_values_nth [OF j(1), of i 1] j(2) by (simp only: if_False)
          ultimately have "(of_int \<lfloor>rs ! j * ?f + 1 / 2\<rfloor> :: rat) \<le> 1" by simp
          then have "\<lfloor>rs ! j * ?f + 1 / 2\<rfloor> \<le> 1" by (simp only: of_int_le_1_iff)
          then have "\<lfloor>rs ! j * ?f + 1 / 2\<rfloor> < 2" by simp
          then have "rs ! j * ?f + 1 / 2 < of_int 2" by (simp only: floor_less_iff)
          then have "rs ! j * ?f + 1 / 2 < 2" by (simp only: of_int_numeral)
          then have "rs ! j * ?f < 3 / 2" by linarith
          then show "y < 3 / 2" by (simp only: x(2) j(3))
        qed
        have ge2: "2 \<le> ?n"
        proof (rule ccontr)
          assume "\<not> 2 \<le> ?n"
          then have "?n = 1" "i = 0" using i by auto
          then obtain r where "rs = [r]" by (cases rs) auto
          then show False using sum ne100 \<open>i = 0\<close> by simp
        qed
        have lenO: "length ?others = ?n - 1" using i by simp
        then have "length ?others \<noteq> 0" using ge2 by simp
        then have ne: "map (\<lambda>x. x * ?f) ?others \<noteq> []" by (simp only: length_0_conv map_is_Nil_conv not_False_eq_True)
        have "length (map (\<lambda>x. x * ?f) ?others) = ?n - 1" using lenO by simp
        with sum_list_less_bound [OF ne bound]
        have s1: "sum_list (map (\<lambda>x. x * ?f) ?others) < 3 / 2 * of_nat (?n - 1)" by (simp only:)
        have "sum_list (map (\<lambda>x. x * ?f) ?others) = sum_list ?others * ?f"
          by (simp only: sum_list_mult_const list.map_ident)
        then have s2: "sum_list (map (\<lambda>x. x * ?f) ?others) = ?oT * ?f"
          by (simp only: sum_list_without [OF i])
        have "?oT * ?f = ?oT - (1 - rs ! i)"
          by (simp only: times_divide_eq_right nonzero_mult_div_cancel_left [OF oT])
        then have s3: "?oT * ?f = 99" using sum by simp
        have s4: "(of_nat (?n - 1) :: rat) \<le> 66" using small by simp
        from s1 s2 s3 s4 show False by linarith
      qed
    qed
    then have "normalizePercentages R ! i = R ! i" using g(4) by simp
    then show ?thesis using R(1) pi by simp
  qed
qed




section \<open>Claims about the edited entry and the floor\<close>




text \<open>
  Claim C2, as stated, fails: with three entries at 50, 30 and 20, the value 500 is clamped
  to 99, the other two are floored at 1 each, the total is 101, and the normalization takes
  the surplus out of the largest entry, the edited one, which ends at 98.
\<close>

theorem update_clamping_counterexample:
  "percentage (updateLanguagePercentage
      [\<lparr>name = ''A'', percentage = Fin 50, color = ''a''\<rparr>,
       \<lparr>name = ''B'', percentage = Fin 30, color = ''b''\<rparr>,
       \<lparr>name = ''C'', percentage = Fin 20, color = ''c''\<rparr>] 0 (Some 500) ! 0) = Fin 98"
  by (simp add: updateLanguagePercentage_def validatedPercentage_def filter_index_def
        rescale_loop.simps normalizePercentages_def sum_percentages_def
        largestIndex_def largest_step_def js_sub_def Math_max_def Let_def upt_rec)

text \<open>
  Claim C2, amended. Take a list of \<open>n\<close> non-negative integer percentages that total 100
  and an index in range whose entry does not hold all 100. After an edit to 500 the entry
  holds 99 when it held 99 before, and \<open>101 - n\<close> otherwise, which is 99 exactly when the
  list has two entries. After an edit to -10 the entry holds exactly 1, provided it is not
  the first entry or the list has at most 67 entries.
\<close>

theorem update_clamping:
  assumes L: "map percentage languages = map (\<lambda>k. Fin (of_int k)) ks"
    and nonneg: "\<forall>k\<in>set ks. 0 \<le> k" and sum: "sum_list ks = 100"
    and idx: "0 \<le> index" "index < int (length languages)"
    and others: "ks ! nat index \<noteq> 100"
  shows "percentage (updateLanguagePercentage languages index (Some 500) ! nat index)
           = Fin (of_int (if ks ! nat index = 99 then 99 else 101 - int (length languages)))
       \<and> (0 < index \<or> length languages \<le> 67 \<longrightarrow>
           percentage (updateLanguagePercentage languages index (Some (- 10)) ! nat index) = Fin 1)"
proof -
  let ?rs = "map of_int ks :: rat list"
  let ?i = "nat index"
  have L': "map percentage languages = map Fin ?rs" using L by simp
  have len: "length languages = length ks" using L by (metis length_map)
  have i: "?i < length ?rs" using idx len by simp
  have ii: "int ?i = index" using idx by simp
  have sum': "sum_list ?rs = 100" using sum by (simp add: sum_list_of_int_rat)
  have nonneg': "\<forall>r\<in>set ?rs. 0 \<le> r" using nonneg by auto
  have nth: "?rs ! ?i = of_int (ks ! ?i)" using i by simp
  have pi: "percentage (languages ! ?i) = Fin (of_int (ks ! ?i))"
    using percentage_nth [OF L' i] nth by simp
  have ne100: "?rs ! ?i \<noteq> 100" using others nth by (metis of_int_eq_numeral_iff)
  have first: "percentage (updateLanguagePercentage languages index (Some 500) ! ?i)
           = Fin (of_int (if ks ! ?i = 99 then 99 else 101 - int (length languages)))"
  proof (cases "ks ! ?i = 99")
    case True
    then have "updateLanguagePercentage languages index (Some 500) = languages"
      using pi idx
      by (simp add: updateLanguagePercentage_def Let_def js_sub_def validated_500)
    then show ?thesis using True pi by simp
  next
    case False
    then have ne99: "?rs ! ?i \<noteq> 99" using nth by (metis of_int_eq_numeral_iff)
    from update_to_99 [OF L' i nonneg' sum' ne100 ne99]
    show ?thesis using False len ii by simp
  qed
  have second: "percentage (updateLanguagePercentage languages index (Some (- 10)) ! ?i) = Fin 1"
    if cond: "0 < index \<or> length languages \<le> 67"
  proof (cases "ks ! ?i = 1")
    case True
    then have "updateLanguagePercentage languages index (Some (- 10)) = languages"
      using pi idx
      by (simp add: updateLanguagePercentage_def Let_def js_sub_def validated_minus_10)
    then show ?thesis using True pi by simp
  next
    case False
    then have ne1: "?rs ! ?i \<noteq> 1" using nth by (metis of_int_eq_1_iff)
    have cond': "0 < ?i \<or> length ?rs \<le> 67" using cond len by auto
    from update_to_1 [OF L' i sum' ne100 ne1 cond'] show ?thesis using ii by simp
  qed
  from first second show ?thesis by blast
qed

theorem update_clamping_witness:
  "percentage (updateLanguagePercentage
      [\<lparr>name = ''A'', percentage = Fin 70, color = ''a''\<rparr>,
       \<lparr>name = ''B'', percentage = Fin 30, color = ''b''\<rparr>] 1 (Some 500) ! 1) = Fin 99
   \<and> percentage (updateLanguagePercentage
      [\<lparr>name = ''A'', percentage = Fin 70, color = ''a''\<rparr>,
       \<lparr>name = ''B'', percentage = Fin 30, color = ''b''\<rparr>] 1 (Some (- 10)) ! 1) = Fin 1"
  using update_clamping [of "[\<lparr>name = ''A'', percentage = Fin 70, color = ''a''\<rparr>,
       \<lparr>name = ''B'', percentage = Fin 30, color = ''b''\<rparr>]" "[70, 30]" 1]
  by simp

section \<open>The total after each operation\<close>

text \<open>
  Away from the division by a zero total, each operation returns a list that totals 100:
  the list it hands to \<open>normalizePercentages\<close> has finite percentages and a positive one.
\<close>

lemma map_percentage_rescaled:
  assumes "map percentage L = map Fin rs" "\<And>r. F (Fin r) = Fin (g r)"
  shows "map percentage (map (\<lambda>lang. lang\<lparr>percentage := F (percentage lang)\<rparr>) L) = map Fin (map g rs)"
proof -
  have "map percentage (map (\<lambda>lang. lang\<lparr>percentage := F (percentage lang)\<rparr>) L)
      = map F (map percentage L)" by simp
  also have "\<dots> = map F (map Fin rs)" by (simp only: assms(1))
  also have "\<dots> = map Fin (map g rs)" by (simp add: assms(2))
  finally show ?thesis .
qed

lemma positive_member:
  fixes ks :: "int list"
  shows "0 < sum_list ks \<Longrightarrow> \<exists>k\<in>set ks. 0 < k"
proof (rule ccontr)
  assume "0 < sum_list ks" "\<not> (\<exists>k\<in>set ks. 0 < k)"
  then have "\<forall>k\<in>set ks. k \<le> 0" by (auto simp: not_less)
  then have "sum_list ks \<le> 0" by (intro sum_list_nonpos) auto
  with \<open>0 < sum_list ks\<close> show False by simp
qed

lemma round_ge_1: "(1::rat) \<le> x \<Longrightarrow> 0 < (of_int \<lfloor>x + 1 / 2\<rfloor> :: rat)"
proof -
  assume "1 \<le> x"
  then have "of_int 1 \<le> x + 1 / 2" by simp
  then have "1 \<le> \<lfloor>x + 1 / 2\<rfloor>" by (simp only: le_floor_iff)
  then show ?thesis by simp
qed

lemma add_sum:
  assumes L: "map percentage L = map (\<lambda>k. Fin (of_int k)) ks" and ne: "L \<noteq> []"
    and sum: "sum_list ks = 100"
    and np: "np = None \<and> s = 5 \<or> np = Some (Fin (of_int s))"
  shows "sum_percentages (addLanguageWithRedistribution L new np) = Fin 100"
proof -
  let ?rs = "map of_int ks :: rat list"
  let ?g = "\<lambda>r::rat. of_int \<lfloor>r / 100 * (100 - of_int s) + 1 / 2\<rfloor> :: rat"
  let ?F = "\<lambda>p. Math_round (js_mul (js_div p (Fin 100)) (js_sub (Fin 100) (Fin (of_int s))))"
  let ?updated = "map (\<lambda>lang. lang\<lparr>percentage := ?F (percentage lang)\<rparr>) L"
  let ?result = "?updated @ [new\<lparr>percentage := Fin (of_int s)\<rparr>]"
  have L': "map percentage L = map Fin ?rs" using L by simp
  have npv: "(case np of None \<Rightarrow> Fin 5 | Some p \<Rightarrow> p) = Fin (of_int s)" using np by auto
  have F: "?F (Fin r) = Fin (?g r)" for r by (simp add: js_sub_def)
  have "map percentage ?updated = map Fin (map ?g ?rs)"
    by (rule map_percentage_rescaled [of L ?rs ?F ?g, OF L' F])
  then have res: "map percentage ?result = map Fin (map ?g ?rs @ [of_int s])" by simp
  have eq: "addLanguageWithRedistribution L new np = normalizePercentages ?result"
    using ne npv by (simp add: addLanguageWithRedistribution_def Let_def)
  have pos: "\<exists>r\<in>set (map ?g ?rs @ [of_int s]). 0 < r"
  proof (cases "0 < s")
    case True
    then show ?thesis by simp
  next
    case False
    from positive_member [of ks] sum obtain k where k: "k \<in> set ks" "0 < k" by auto
    have "(1::rat) \<le> of_int k" using k(2) by simp
    moreover have "(1::rat) \<le> (100 - of_int s) / 100" using False by simp
    ultimately have "(1::rat) * 1 \<le> of_int k * ((100 - of_int s) / 100)"
      by (intro mult_mono) simp_all
    then have "(1::rat) \<le> of_int k / 100 * (100 - of_int s)" by simp
    then have "0 < ?g (of_int k)" by (rule round_ge_1)
    moreover have "?g (of_int k) \<in> set (map ?g ?rs @ [of_int s])" using k(1) by simp
    ultimately show ?thesis by blast
  qed
  from normalize_sum [OF res pos] eq show ?thesis by simp
qed

lemma remove_sum:
  assumes L: "map percentage L = map (\<lambda>k. Fin (of_int k)) ks"
    and nonneg: "\<forall>k\<in>set ks. 0 \<le> k" and sum: "sum_list ks = 100"
    and idx: "0 \<le> index" "index < int (length L)" and two: "1 < length L"
    and others: "ks ! nat index \<noteq> 100"
  shows "sum_percentages (removeLanguageWithRedistribution L index) = Fin 100"
proof -
  let ?rs = "map of_int ks :: rat list"
  let ?i = "nat index"
  let ?oT = "sum_list ?rs - ?rs ! ?i"
  let ?g = "\<lambda>r::rat. of_int \<lfloor>r + r / ?oT * ?rs ! ?i + 1 / 2\<rfloor> :: rat"
  let ?F = "\<lambda>p. Math_round (js_add p (js_mul (js_div p (Fin ?oT)) (Fin (?rs ! ?i))))"
  let ?remaining = "filter_index L index"
  let ?others = "take ?i ?rs @ drop (Suc ?i) ?rs"
  let ?updated = "map (\<lambda>lang. lang\<lparr>percentage := ?F (percentage lang)\<rparr>) ?remaining"
  have L': "map percentage L = map Fin ?rs" using L by simp
  have len: "length L = length ks" using L by (metis length_map)
  have i: "?i < length ?rs" using idx len by simp
  have ii: "int ?i = index" using idx by simp
  have sum': "sum_list ?rs = 100" using sum by (simp add: sum_list_of_int_rat)
  have nth: "?rs ! ?i = of_int (ks ! ?i)" using i by simp
  have "?rs ! ?i \<noteq> 100" using others nth by (metis of_int_eq_numeral_iff)
  then have oT: "?oT \<noteq> 0" using sum' by simp
  have pi: "percentage (L ! ?i) = Fin (?rs ! ?i)" by (rule percentage_nth [OF L' i])
  have tot: "sum_percentages ?remaining = Fin ?oT"
    using sum_percentages_others [OF L' i] ii by simp
  have rem: "map percentage ?remaining = map Fin ?others"
    using filter_index_eq [of ?i L] i len ii L'
    by (simp add: take_map [symmetric] drop_map [symmetric])
  have F: "?F (Fin r) = Fin (?g r)" for r using oT by simp
  have upd: "map percentage ?updated = map Fin (map ?g ?others)"
    by (rule map_percentage_rescaled [of ?remaining ?others ?F ?g, OF rem F])
  have eq: "removeLanguageWithRedistribution L index = normalizePercentages ?updated"
    using idx two pi tot by (simp add: removeLanguageWithRedistribution_def Let_def)
  have nn: "\<forall>r\<in>set ?others. 0 \<le> r"
    using nonneg by (auto dest!: in_set_takeD in_set_dropD)
  have sumO: "sum_list ?others = ?oT" by (rule sum_list_without [OF i])
  have oTpos: "0 < ?oT"
  proof -
    have "0 \<le> sum_list ?others" using nn by (intro sum_list_nonneg) auto
    then show ?thesis using oT sumO by simp
  qed
  have "\<exists>r\<in>set ?others. 0 < r"
  proof (rule ccontr)
    assume "\<not> (\<exists>r\<in>set ?others. 0 < r)"
    then have "\<forall>r\<in>set ?others. r \<le> 0" by (auto simp: not_less)
    then have "sum_list ?others \<le> 0" by (intro sum_list_nonpos) auto
    then show False using oTpos sumO by simp
  qed
  then obtain r where r: "r \<in> set ?others" "0 < r" by blast
  from others_from_nth [OF r(1)] obtain j where j: "j < length ?rs" "r = ?rs ! j" by blast
  then have rint: "r = of_int (ks ! j)" by simp
  then have "0 < ks ! j" using r(2) by simp
  then have r1: "1 \<le> r" using rint by simp
  have "0 \<le> ?rs ! ?i" using nonneg i nth by simp
  then have "0 \<le> r / ?oT * ?rs ! ?i" using r(2) oTpos by simp
  then have "1 \<le> r + r / ?oT * ?rs ! ?i" using r1 by linarith
  then have "0 < ?g r" by (rule round_ge_1)
  moreover have "?g r \<in> ?g ` set ?others" using r(1) by (rule imageI)
  then have "?g r \<in> set (map ?g ?others)" by (simp only: set_map)
  ultimately have pos: "\<exists>x\<in>set (map ?g ?others). 0 < x" by blast
  from normalize_sum [OF upd pos] eq show ?thesis by simp
qed

lemma update_sum:
  assumes L: "map percentage L = map (\<lambda>k. Fin (of_int k)) ks"
    and sum: "sum_list ks = 100"
    and idx: "0 \<le> index" "index < int (length L)"
    and others: "length L = 1 \<or> ks ! nat index \<noteq> 100"
  shows "sum_percentages (updateLanguagePercentage L index parsed) = Fin 100"
proof -
  let ?rs = "map of_int ks :: rat list"
  let ?i = "nat index"
  let ?v = "of_int (validatedPercentage parsed) :: rat"
  have L': "map percentage L = map Fin ?rs" using L by simp
  have len: "length L = length ks" using L by (metis length_map)
  have i: "?i < length ?rs" using idx len by simp
  have ii: "int ?i = index" using idx by simp
  have sum': "sum_list ?rs = 100" using sum by (simp add: sum_list_of_int_rat)
  have nth: "?rs ! ?i = of_int (ks ! ?i)" using i by simp
  have pi: "percentage (L ! ?i) = Fin (?rs ! ?i)" by (rule percentage_nth [OF L' i])
  have total: "sum_percentages L = Fin 100" using sum_percentages_fin [OF L'] sum' by simp
  show ?thesis
  proof (cases "?v = ?rs ! ?i")
    case True
    then have "updateLanguagePercentage L index parsed = L"
      using pi by (simp add: updateLanguagePercentage_def Let_def js_sub_def)
    then show ?thesis using total by simp
  next
    case False
    show ?thesis
    proof (cases "length L = 1")
      case True
      then obtain e where e: "L = [e]" by (cases L) auto
      then have "index = 0" using idx by simp
      moreover have "percentage e \<noteq> Fin ?v" using False pi e \<open>index = 0\<close> by auto
      ultimately show ?thesis using update_one_entry [of e parsed] e
        by (simp add: sum_percentages_def)
    next
      case False
      then have "ks ! ?i \<noteq> 100" using others by simp
      then have "?rs ! ?i \<noteq> 100" using nth by (metis of_int_eq_numeral_iff)
      then have oT: "sum_list ?rs - ?rs ! ?i \<noteq> 0" using sum' by simp
      from update_unfold [OF L' i refl \<open>?v \<noteq> ?rs ! ?i\<close> oT] obtain R where R:
        "updateLanguagePercentage L (int ?i) parsed = normalizePercentages R"
        "map percentage R = map Fin (rescaled_values ?rs ?i ?v)" by blast
      have "rescaled_values ?rs ?i ?v ! ?i \<in> set (rescaled_values ?rs ?i ?v)"
        using i by (simp add: rescaled_values_length)
      moreover have "0 < rescaled_values ?rs ?i ?v ! ?i"
        using rescaled_values_target [OF i, of ?v] validated_bounds [of parsed] by simp
      ultimately have pos: "\<exists>r\<in>set (rescaled_values ?rs ?i ?v). 0 < r" by blast
      from normalize_sum [OF R(2) pos] R(1) ii show ?thesis by simp
    qed
  qed
qed

lemma sum_invariant_nonzero_others:
  assumes "map percentage L = map (\<lambda>k. Fin (of_int k)) ks" and "L \<noteq> []"
    and "\<forall>k\<in>set ks. 0 \<le> k" and "sum_list ks = 100"
  shows "sum_percentages (normalizePercentages L) = Fin 100"
    and "sum_percentages (addLanguageWithRedistribution L new None) = Fin 100"
    and "sum_percentages (addLanguageWithRedistribution L new (Some (Fin (of_int s)))) = Fin 100"
    and "index < 0 \<or> int (length L) \<le> index \<or> length L = 1 \<or> ks ! nat index \<noteq> 100 \<Longrightarrow>
         sum_percentages (removeLanguageWithRedistribution L index) = Fin 100"
    and "index < 0 \<or> int (length L) \<le> index \<or> length L = 1 \<or> ks ! nat index \<noteq> 100 \<Longrightarrow>
         sum_percentages (updateLanguagePercentage L index parsed) = Fin 100"
proof -
  have L': "map percentage L = map Fin (map of_int ks)" using assms(1) by simp
  have total: "sum_percentages L = Fin 100"
    using sum_percentages_fin [OF L'] assms(4) by (simp add: sum_list_of_int_rat)
  show "sum_percentages (normalizePercentages L) = Fin 100"
    using total assms(2) by (simp add: normalize_total_100)
  show "sum_percentages (addLanguageWithRedistribution L new None) = Fin 100"
    by (rule add_sum [OF assms(1,2,4), of None 5]) simp
  show "sum_percentages (addLanguageWithRedistribution L new (Some (Fin (of_int s)))) = Fin 100"
    by (rule add_sum [OF assms(1,2,4), of _ s]) simp
  show "sum_percentages (removeLanguageWithRedistribution L index) = Fin 100"
    if c: "index < 0 \<or> int (length L) \<le> index \<or> length L = 1 \<or> ks ! nat index \<noteq> 100"
  proof (cases "index < 0 \<or> int (length L) \<le> index \<or> length L = 1")
    case True
    then have "removeLanguageWithRedistribution L index = L"
      by (auto simp: removeLanguageWithRedistribution_def)
    then show ?thesis using total by simp
  next
    case False
    then have "0 \<le> index" "index < int (length L)" "1 < length L" "ks ! nat index \<noteq> 100"
      using c assms(2) by (auto simp: Suc_lessI)
    then show ?thesis by (intro remove_sum [OF assms(1,3,4)])
  qed
  show "sum_percentages (updateLanguagePercentage L index parsed) = Fin 100"
    if c: "index < 0 \<or> int (length L) \<le> index \<or> length L = 1 \<or> ks ! nat index \<noteq> 100"
  proof (cases "index < 0 \<or> int (length L) \<le> index")
    case True
    then have "updateLanguagePercentage L index parsed = L"
      by (auto simp: updateLanguagePercentage_def)
    then show ?thesis using total by simp
  next
    case False
    then have "0 \<le> index" "index < int (length L)" "length L = 1 \<or> ks ! nat index \<noteq> 100"
      using c by auto
    then show ?thesis by (intro update_sum [OF assms(1,4)])
  qed
qed

text \<open>
  Claim C1 fails on the code where the entries that remain, or the entries other than the
  edited one, total 0: the proportional share is a division by that total. With A at 100
  and B at 0, a list of the data model that totals 100, removing A leaves B at \<open>NaN\<close>,
  and editing A to 50 leaves both entries at \<open>NaN\<close>; \<open>normalizePercentages\<close> cannot
  repair either list, and neither totals 100.
\<close>

theorem sum_invariant_zero_total:
  "sum_percentages
      [\<lparr>name = ''A'', percentage = Fin 100, color = ''a''\<rparr>,
       \<lparr>name = ''B'', percentage = Fin 0, color = ''b''\<rparr>] = Fin 100
   \<and> removeLanguageWithRedistribution
      [\<lparr>name = ''A'', percentage = Fin 100, color = ''a''\<rparr>,
       \<lparr>name = ''B'', percentage = Fin 0, color = ''b''\<rparr>] 0
     = [\<lparr>name = ''B'', percentage = NaN, color = ''b''\<rparr>]
   \<and> sum_percentages [\<lparr>name = ''B'', percentage = NaN, color = ''b''\<rparr>] = NaN
   \<and> updateLanguagePercentage
      [\<lparr>name = ''A'', percentage = Fin 100, color = ''a''\<rparr>,
       \<lparr>name = ''B'', percentage = Fin 0, color = ''b''\<rparr>] 0 (Some 50)
     = [\<lparr>name = ''A'', percentage = NaN, color = ''a''\<rparr>,
        \<lparr>name = ''B'', percentage = NaN, color = ''b''\<rparr>]"
  by (simp add: removeLanguageWithRedistribution_def updateLanguagePercentage_def
        validatedPercentage_def filter_index_def rescale_loop.simps normalizePercentages_def
        sum_percentages_def largestIndex_def largest_step_def js_sub_def Math_max_def
        inf_of_sign_def Let_def upt_rec)

section \<open>The store: what the operations write, and where\<close>

text \<open>
  On an array of pairwise different objects that all exist, each operation on the store
  returns an array that reads as the list the operation on values returns. Adding and
  removing write into the objects they have just created, so the store they were given
  is a prefix of the store they leave; normalizing and editing write into the objects of
  the array they were given.
\<close>

lemma deref_length: "length (deref st arr) = length arr"
  by (simp add: deref_def)

lemma deref_nth: "j < length arr \<Longrightarrow> deref st arr ! j = st ! (arr ! j)"
  by (simp add: deref_def)

lemma deref_update:
  assumes "distinct arr" "g < length arr" "\<forall>a\<in>set arr. a < length st"
  shows "deref (st[arr ! g := e]) arr = (deref st arr)[g := e]"
proof (rule nth_equalityI)
  show "length (deref (st[arr ! g := e]) arr) = length ((deref st arr)[g := e])"
    by (simp add: deref_length)
next
  fix j assume "j < length (deref (st[arr ! g := e]) arr)"
  then have j: "j < length arr" by (simp add: deref_length)
  show "deref (st[arr ! g := e]) arr ! j = (deref st arr)[g := e] ! j"
  proof (cases "j = g")
    case True
    then show ?thesis using assms j by (simp add: deref_nth deref_length)
  next
    case False
    then have "arr ! j \<noteq> arr ! g" using assms(1,2) j by (simp add: nth_eq_iff_index_eq)
    then show ?thesis using False j by (simp add: deref_nth deref_length)
  qed
qed

lemma largest_fold_range:
  "foldl largest_step (- 1, Fin 0) (zip (map int [0..<length ps]) ps) = (k, m) \<Longrightarrow>
   - 1 \<le> k \<and> k < int (length ps)"
proof (induction ps arbitrary: k m rule: rev_induct)
  case Nil
  then show ?case by simp
next
  case (snoc x xs)
  obtain k' m' where prev: "foldl largest_step (- 1, Fin 0) (zip (map int [0..<length xs]) xs) = (k', m')"
    by (cases "foldl largest_step (- 1, Fin 0) (zip (map int [0..<length xs]) xs)") auto
  from snoc.prems prev have "largest_step (k', m') (int (length xs), x) = (k, m)" by simp
  then have "k = k' \<or> k = int (length xs)" by (auto simp: largest_step_def split: if_splits)
  with snoc.IH [OF prev] show ?case by auto
qed

lemma largestIndex_range: "- 1 \<le> largestIndex ps \<and> largestIndex ps < int (length ps)"
proof -
  obtain k m where km: "foldl largest_step (- 1, Fin 0) (zip (map int [0..<length ps]) ps) = (k, m)"
    by (cases "foldl largest_step (- 1, Fin 0) (zip (map int [0..<length ps]) ps)") auto
  from largest_fold_range [OF km] km show ?thesis by (simp add: largestIndex_def)
qed

lemma deref_eq_Nil: "(deref st arr = []) = (arr = [])"
  by (simp add: deref_def)

lemma normalize_refines:
  assumes "distinct arr" "\<forall>a\<in>set arr. a < length st"
    and "normalizePercentages_st st arr = (arr', st')"
  shows "deref st' arr' = normalizePercentages (deref st arr)"
proof -
  let ?li = "largestIndex (map percentage (deref st arr))"
  let ?total = "sum_percentages (deref st arr)"
  have rng: "?li < int (length arr)" using largestIndex_range [of "map percentage (deref st arr)"]
    by (simp add: deref_length)
  consider (empty) "arr = []" | (full) "arr \<noteq> []" "?total = Fin 100"
    | (none) "arr \<noteq> []" "?total \<noteq> Fin 100" "\<not> 0 \<le> ?li"
    | (adjust) "arr \<noteq> []" "?total \<noteq> Fin 100" "0 \<le> ?li" by blast
  then show ?thesis
  proof cases
    case empty
    then have "arr' = []" "st' = st" using assms(3) by (auto simp: normalizePercentages_st_def)
    then show ?thesis using empty by (simp add: normalizePercentages_def deref_eq_Nil)
  next
    case full
    then have "arr' = arr" "st' = st" using assms(3) by (auto simp: normalizePercentages_st_def)
    then show ?thesis using full by (simp add: normalizePercentages_def deref_eq_Nil)
  next
    case none
    then have "arr' = arr" "st' = st"
      using assms(3) by (auto simp: normalizePercentages_st_def Let_def)
    then show ?thesis using none by (simp add: normalizePercentages_def deref_eq_Nil Let_def)
  next
    case adjust
    then have g: "nat ?li < length arr" using rng by simp
    have "arr' = arr" "st' = st[arr ! nat ?li := (st ! (arr ! nat ?li))\<lparr>percentage :=
        js_add (percentage (st ! (arr ! nat ?li))) (js_sub (Fin 100) ?total)\<rparr>]"
      using adjust assms(3) by (auto simp: normalizePercentages_st_def Let_def)
    then show ?thesis using adjust g deref_update [OF assms(1) g assms(2)]
      by (simp add: normalizePercentages_def Let_def deref_nth deref_eq_Nil)
  qed
qed

lemma rescale_loop_st_length: "length (rescale_loop_st i index factor arr st) = length st"
proof (induction i index factor arr st rule: rescale_loop_st.induct)
  case (1 i index factor arr st)
  show ?case
  proof (cases "i < length arr")
    case True
    then show ?thesis using "1.IH" by (subst rescale_loop_st.simps) simp
  next
    case False
    then show ?thesis by (subst rescale_loop_st.simps) simp
  qed
qed

lemma rescale_loop_refines:
  "distinct arr \<Longrightarrow> \<forall>a\<in>set arr. a < length st \<Longrightarrow>
   deref (rescale_loop_st i index factor arr st) arr = rescale_loop i index factor (deref st arr)"
proof (induction i index factor arr st rule: rescale_loop_st.induct)
  case (1 i index factor arr st)
  show ?case
  proof (cases "i < length arr")
    case False
    then show ?thesis
      by (subst rescale_loop_st.simps, subst rescale_loop.simps) (simp add: deref_length)
  next
    case True
    let ?e = "(st ! (arr ! i))\<lparr>percentage :=
         Math_max (Fin 1) (Math_round (js_mul (percentage (st ! (arr ! i))) factor))\<rparr>"
    let ?st' = "if int i \<noteq> index then st[arr ! i := ?e] else st"
    have rng: "\<forall>a\<in>set arr. a < length ?st'" using "1.prems"(2) by simp
    have step: "deref ?st' arr =
       (if int i \<noteq> index
        then (deref st arr)[i := (deref st arr ! i)\<lparr>percentage :=
               Math_max (Fin 1) (Math_round (js_mul (percentage (deref st arr ! i)) factor))\<rparr>]
        else deref st arr)"
      using True deref_update [OF "1.prems"(1) True "1.prems"(2)] by (simp add: deref_nth)
    have "deref (rescale_loop_st i index factor arr st) arr
        = deref (rescale_loop_st (Suc i) index factor arr ?st') arr"
      using True by (subst rescale_loop_st.simps) simp
    also have "\<dots> = rescale_loop (Suc i) index factor (deref ?st' arr)"
      by (rule "1.IH" [OF True "1.prems"(1) rng])
    also have "\<dots> = rescale_loop i index factor (deref st arr)"
      using True by (subst (2) rescale_loop.simps) (simp only: step deref_length if_True)
    finally show ?thesis .
  qed
qed

lemma deref_others:
  assumes "distinct arr" "i < length arr"
  shows "deref (st[arr ! i := e]) (filter_index arr (int i)) = filter_index (deref st arr) (int i)"
proof -
  have len: "i < length (deref st arr)" using assms(2) by (simp add: deref_length)
  have "\<forall>a\<in>set (take i arr @ drop (Suc i) arr). arr ! i \<noteq> a"
  proof
    fix a assume "a \<in> set (take i arr @ drop (Suc i) arr)"
    from others_from_nth [OF this] obtain j where "j < length arr" "j \<noteq> i" "a = arr ! j" by blast
    then show "arr ! i \<noteq> a" using assms by (simp add: nth_eq_iff_index_eq)
  qed
  then have "deref (st[arr ! i := e]) (take i arr @ drop (Suc i) arr)
      = deref st (take i arr @ drop (Suc i) arr)"
    unfolding deref_def by (intro map_cong refl) simp
  also have "\<dots> = take i (deref st arr) @ drop (Suc i) (deref st arr)"
    by (simp add: deref_def take_map drop_map)
  finally show ?thesis using assms(2) len by (simp add: filter_index_eq)
qed

lemma update_refines:
  assumes d: "distinct arr" and r: "\<forall>a\<in>set arr. a < length st"
    and u: "updateLanguagePercentage_st st arr index parsed = (arr', st')"
  shows "deref st' arr' = updateLanguagePercentage (deref st arr) index parsed"
proof (cases "arr = [] \<or> index < 0 \<or> int (length arr) \<le> index")
  case True
  then have "arr' = arr" "st' = st" using u by (auto simp: updateLanguagePercentage_st_def)
  then show ?thesis using True
    by (simp add: updateLanguagePercentage_def deref_eq_Nil deref_length)
next
  case False
  let ?i = "nat index"
  let ?validated = "Fin (of_int (validatedPercentage parsed))"
  let ?diff = "js_sub ?validated (percentage (st ! (arr ! ?i)))"
  have i: "?i < length arr" "int ?i = index" using False by auto
  have cur: "deref st arr ! ?i = st ! (arr ! ?i)" using i(1) by (rule deref_nth)
  show ?thesis
  proof (cases "?diff = Fin 0")
    case True
    then have "arr' = arr" "st' = st" using u False
      by (auto simp: updateLanguagePercentage_st_def Let_def)
    then show ?thesis using True False cur
      by (simp add: updateLanguagePercentage_def deref_eq_Nil deref_length Let_def)
  next
    case diff: False
    let ?st1 = "st[arr ! ?i := (st ! (arr ! ?i))\<lparr>percentage := ?validated\<rparr>]"
    let ?othersTotal = "sum_percentages (deref ?st1 (filter_index arr index))"
    let ?factor = "js_div (js_sub ?othersTotal ?diff) ?othersTotal"
    let ?st2 = "rescale_loop_st 0 index ?factor arr ?st1"
    have u': "normalizePercentages_st ?st2 arr = (arr', st')"
      using u False diff by (simp add: updateLanguagePercentage_st_def Let_def)
    have r1: "\<forall>a\<in>set arr. a < length ?st1" using r by simp
    have r2: "\<forall>a\<in>set arr. a < length ?st2" using r by (simp add: rescale_loop_st_length)
    have d1: "deref ?st1 arr = (deref st arr)[?i := (deref st arr ! ?i)\<lparr>percentage := ?validated\<rparr>]"
      using deref_update [OF d i(1) r] cur by simp
    have o: "deref ?st1 (filter_index arr index) = filter_index (deref st arr) index"
      using deref_others [OF d i(1)] i(2) by simp
    have "deref st' arr' = normalizePercentages (deref ?st2 arr)"
      by (rule normalize_refines [OF d r2 u'])
    also have "deref ?st2 arr = rescale_loop 0 index ?factor (deref ?st1 arr)"
      by (rule rescale_loop_refines [OF d r1])
    finally show ?thesis using False diff cur
      by (simp add: updateLanguagePercentage_def deref_eq_Nil deref_length Let_def d1 o)
  qed
qed

lemma deref_fresh: "deref (st @ xs) [length st..<length st + length xs] = xs"
proof (rule nth_equalityI)
  show "length (deref (st @ xs) [length st..<length st + length xs]) = length xs"
    by (simp add: deref_length)
next
  fix j assume "j < length (deref (st @ xs) [length st..<length st + length xs])"
  then have "j < length xs" by (simp add: deref_length)
  then show "deref (st @ xs) [length st..<length st + length xs] ! j = xs ! j"
    by (simp add: deref_nth nth_append)
qed

lemma deref_filter_index:
  assumes "i < length arr"
  shows "deref st (filter_index arr (int i)) = filter_index (deref st arr) (int i)"
proof -
  have "i < length (deref st arr)" using assms by (simp add: deref_length)
  then show ?thesis using assms
    by (simp add: filter_index_eq) (simp add: deref_def take_map drop_map)
qed

lemma normalize_st_frame:
  assumes "\<forall>a\<in>set arr. n \<le> a" "normalizePercentages_st st arr = (arr', st')"
  shows "take n st' = take n st"
proof -
  let ?li = "largestIndex (map percentage (deref st arr))"
  have rng: "?li < int (length arr)" using largestIndex_range [of "map percentage (deref st arr)"]
    by (simp add: deref_length)
  show ?thesis
  proof (cases "arr \<noteq> [] \<and> sum_percentages (deref st arr) \<noteq> Fin 100 \<and> 0 \<le> ?li")
    case True
    then have "nat ?li < length arr" using rng by (simp add: nat_less_iff)
    then have "n \<le> arr ! nat ?li" using assms(1) by simp
    moreover have "st' = st[arr ! nat ?li := (st ! (arr ! nat ?li))\<lparr>percentage :=
        js_add (percentage (st ! (arr ! nat ?li))) (js_sub (Fin 100) (sum_percentages (deref st arr)))\<rparr>]"
      using True assms(2) by (auto simp: normalizePercentages_st_def Let_def)
    ultimately show ?thesis by simp
  next
    case False
    then have "st' = st" using assms(2)
      by (auto simp: normalizePercentages_st_def Let_def split: if_splits)
    then show ?thesis by simp
  qed
qed

lemma add_refines:
  assumes "addLanguageWithRedistribution_st st arr new np = (arr', st')"
  shows "deref st' arr' = addLanguageWithRedistribution (deref st arr) new np"
    and "take (length st) st' = st"
proof -
  let ?np = "case np of None \<Rightarrow> Fin 5 | Some p \<Rightarrow> p"
  let ?updated = "map (\<lambda>lang. lang\<lparr>percentage :=
       Math_round (js_mul (js_div (percentage lang) (Fin 100)) (js_sub (Fin 100) ?np))\<rparr>) (deref st arr)"
  let ?objs = "?updated @ [new\<lparr>percentage := ?np\<rparr>]"
  let ?result = "[length st..<length st + length ?objs]"
  have both: "deref st' arr' = addLanguageWithRedistribution (deref st arr) new np \<and>
              take (length st) st' = st"
  proof (cases "arr = []")
    case True
    then have "arr' = [length st]" "st' = st @ [new\<lparr>percentage := Fin 100\<rparr>]"
      using assms by (auto simp: addLanguageWithRedistribution_st_def Let_def)
    then show ?thesis using True
      by (simp add: addLanguageWithRedistribution_def deref_eq_Nil Let_def) (simp add: deref_def)
  next
    case False
    have u: "normalizePercentages_st (st @ ?objs) ?result = (arr', st')"
      using assms False by (simp add: addLanguageWithRedistribution_st_def Let_def deref_length)
    have "deref st' arr' = normalizePercentages (deref (st @ ?objs) ?result)"
      by (rule normalize_refines [OF _ _ u]) auto
    then have a: "deref st' arr' = addLanguageWithRedistribution (deref st arr) new np"
      using False by (simp only: deref_fresh) (simp add: addLanguageWithRedistribution_def deref_eq_Nil Let_def)
    have "take (length st) st' = take (length st) (st @ ?objs)"
      by (rule normalize_st_frame [OF _ u]) auto
    then show ?thesis using a by simp
  qed
  from both show "deref st' arr' = addLanguageWithRedistribution (deref st arr) new np" by simp
  from both show "take (length st) st' = st" by simp
qed

lemma remove_refines:
  assumes "removeLanguageWithRedistribution_st st arr index = (arr', st')"
  shows "deref st' arr' = removeLanguageWithRedistribution (deref st arr) index"
    and "take (length st) st' = st"
proof -
  have both: "deref st' arr' = removeLanguageWithRedistribution (deref st arr) index \<and>
              take (length st) st' = st"
  proof (cases "length arr \<le> 1 \<or> index < 0 \<or> int (length arr) \<le> index")
    case True
    then have "arr' = arr" "st' = st"
      using assms by (auto simp: removeLanguageWithRedistribution_st_def)
    then show ?thesis using True by (simp add: removeLanguageWithRedistribution_def deref_length)
  next
    case False
    let ?i = "nat index"
    let ?remaining = "filter_index arr index"
    let ?total = "sum_percentages (deref st ?remaining)"
    let ?removed = "percentage (st ! (arr ! ?i))"
    let ?updated = "map (\<lambda>lang. lang\<lparr>percentage :=
          Math_round (js_add (percentage lang) (js_mul (js_div (percentage lang) ?total) ?removed))\<rparr>)
          (deref st ?remaining)"
    let ?result = "[length st..<length st + length ?updated]"
    have i: "?i < length arr" "int ?i = index" using False by auto
    have cur: "deref st arr ! ?i = st ! (arr ! ?i)" using i(1) by (rule deref_nth)
    have rem: "deref st ?remaining = filter_index (deref st arr) index"
      using deref_filter_index [OF i(1), of st] i(2) by simp
    have u: "normalizePercentages_st (st @ ?updated) ?result = (arr', st')"
      using assms False by (simp add: removeLanguageWithRedistribution_st_def Let_def deref_length)
    have "deref st' arr' = normalizePercentages (deref (st @ ?updated) ?result)"
      by (rule normalize_refines [OF _ _ u]) auto
    then have a: "deref st' arr' = removeLanguageWithRedistribution (deref st arr) index"
      using False cur
      by (simp only: deref_fresh rem)
         (simp add: removeLanguageWithRedistribution_def deref_length Let_def)
    have "take (length st) st' = take (length st) (st @ ?updated)"
      by (rule normalize_st_frame [OF _ u]) auto
    then show ?thesis using a by simp
  qed
  from both show "deref st' arr' = removeLanguageWithRedistribution (deref st arr) index" by simp
  from both show "take (length st) st' = st" by simp
qed

text \<open>
  Claim C4 fails on the code. \<open>updateLanguagePercentage\<close> copies the array of references
  and then assigns to the \<open>percentage\<close> field of the objects, which the caller's array
  still refers to: with A at 50, B at 30 and C at 20, editing A to 70 leaves the three
  objects of the input at 70, 18 and 12, so the caller's snapshot no longer reads as it
  did. \<open>normalizePercentages\<close> does the same to the largest entry of a list that does not
  total 100: A at 50 and B at 30 are left at 70 and 30.
\<close>

theorem update_writes_into_snapshot:
  "updateLanguagePercentage_st
      [\<lparr>name = ''A'', percentage = Fin 50, color = ''a''\<rparr>,
       \<lparr>name = ''B'', percentage = Fin 30, color = ''b''\<rparr>,
       \<lparr>name = ''C'', percentage = Fin 20, color = ''c''\<rparr>] [0, 1, 2] 0 (Some 70)
    = ([0, 1, 2],
       [\<lparr>name = ''A'', percentage = Fin 70, color = ''a''\<rparr>,
        \<lparr>name = ''B'', percentage = Fin 18, color = ''b''\<rparr>,
        \<lparr>name = ''C'', percentage = Fin 12, color = ''c''\<rparr>])
   \<and> deref [\<lparr>name = ''A'', percentage = Fin 70, color = ''a''\<rparr>,
        \<lparr>name = ''B'', percentage = Fin 18, color = ''b''\<rparr>,
        \<lparr>name = ''C'', percentage = Fin 12, color = ''c''\<rparr>] [0, 1, 2]
     \<noteq> deref [\<lparr>name = ''A'', percentage = Fin 50, color = ''a''\<rparr>,
       \<lparr>name = ''B'', percentage = Fin 30, color = ''b''\<rparr>,
       \<lparr>name = ''C'', percentage = Fin 20, color = ''c''\<rparr>] [0, 1, 2]
   \<and> normalizePercentages_st
      [\<lparr>name = ''A'', percentage = Fin 50, color = ''a''\<rparr>,
       \<lparr>name = ''B'', percentage = Fin 30, color = ''b''\<rparr>] [0, 1]
    = ([0, 1],
       [\<lparr>name = ''A'', percentage = Fin 70, color = ''a''\<rparr>,
        \<lparr>name = ''B'', percentage = Fin 30, color = ''b''\<rparr>])"
  by code_simp

section \<open>Sums of integers in double arithmetic\<close>

text \<open>
  An integer below \<open>2 ^ 53\<close> in absolute value is a double, so sums and differences of such
  integers are exact as long as they stay below that bound.
\<close>

lemma pow2_nonpos: "d \<le> 0 \<Longrightarrow> pow2 d = 1 / 2 ^ nat (- d)"
  by (cases "d = 0") (simp_all add: pow2_def)

lemma round_half_even_of_int: "round_half_even (of_int z) = z"
  by (simp add: round_half_even_def)

lemma exponent_int_le:
  assumes "0 < n" "n < 2 ^ 53"
  shows "exponent (of_int n) \<le> 52"
proof -
  have "bitlen n \<le> 53" using assms(2) by (simp add: bitlen_le_iff_power)
  moreover have "bitlen 1 = 1" by (simp add: bitlen_alt_def)
  ultimately have "bitlen n - bitlen 1 \<le> 52" by simp
  then show ?thesis by (auto simp: exponent_def Let_def)
qed

lemma double_of_int:
  assumes "\<bar>n\<bar> < 2 ^ 53"
  shows "double_of_rat (of_int n) = Fin (of_int n)"
proof (cases "n = 0")
  case True
  then show ?thesis by (simp add: double_of_rat_def)
next
  case False
  define E where "E = max (exponent \<bar>of_int n\<bar>) (- 1022)"
  define m where "m = nat (52 - E)"
  have abs: "\<bar>of_int n :: rat\<bar> = of_int \<bar>n\<bar>" by simp
  have pos: "0 < \<bar>n\<bar>" using False by simp
  have le: "exponent \<bar>of_int n\<bar> \<le> 52"
    unfolding abs by (rule exponent_int_le [OF pos assms])
  then have E: "E - 52 \<le> 0" by (simp add: E_def)
  have q: "pow2 (E - 52) = 1 / 2 ^ m" using pow2_nonpos [OF E] by (simp add: m_def)
  have "of_int n / pow2 (E - 52) = (of_int (n * 2 ^ m) :: rat)" by (simp add: q)
  then have r: "round_half_even (of_int n / pow2 (E - 52)) = n * 2 ^ m"
    by (simp only: round_half_even_of_int)
  have y: "of_int (n * 2 ^ m) * pow2 (E - 52) = (of_int n :: rat)" by (simp add: q)
  have "\<not> 1024 \<le> exponent \<bar>of_int n\<bar>" using le by simp
  then show ?thesis using False
    by (simp only: double_of_rat_def Let_def E_def [symmetric] r y of_int_eq_0_iff if_False)
qed

lemma fl_add_int:
  "\<bar>a + b\<bar> < 2 ^ 53 \<Longrightarrow> fl_add (Fin (of_int a)) (Fin (of_int b)) = Fin (of_int (a + b))"
  using double_of_int [of "a + b"] by (simp add: fl_add_def)

lemma fl_sub_int:
  "\<bar>a - b\<bar> < 2 ^ 53 \<Longrightarrow> fl_sub (Fin (of_int a)) (Fin (of_int b)) = Fin (of_int (a - b))"
  using double_of_int [of "a - b"] by (simp add: fl_sub_def js_sub_def)

lemma foldl_fl_add_int:
  "\<bar>a\<bar> + sum_list (map abs ks) < 2 ^ 53 \<Longrightarrow>
   foldl fl_add (Fin (of_int a)) (map (\<lambda>k. Fin (of_int k)) ks) = Fin (of_int (a + sum_list ks))"
proof (induction ks arbitrary: a)
  case Nil
  then show ?case by simp
next
  case (Cons k ks)
  have nn: "0 \<le> sum_list (map abs ks)" by (rule sum_list_nonneg) auto
  have "\<bar>a + k\<bar> \<le> \<bar>a\<bar> + \<bar>k\<bar>" by simp
  then have b1: "\<bar>a + k\<bar> < 2 ^ 53" using Cons.prems nn by simp
  have b2: "\<bar>a + k\<bar> + sum_list (map abs ks) < 2 ^ 53" using Cons.prems by simp
  show ?case using Cons.IH [OF b2] fl_add_int [OF b1] by (simp add: add.assoc)
qed

lemma sum_doubles_int:
  "sum_list (map abs ks) < 2 ^ 53 \<Longrightarrow>
   sum_doubles (map (\<lambda>k. Fin (of_int k)) ks) = Fin (of_int (sum_list ks))"
  using foldl_fl_add_int [of 0 ks] by (simp add: sum_doubles_def)

lemma sum_abs_bounded:
  fixes ks :: "int list"
  shows "\<forall>k\<in>set ks. 0 \<le> k \<and> k \<le> 100 \<Longrightarrow> sum_list (map abs ks) \<le> 100 * int (length ks)"
  by (induction ks) auto

section \<open>The list that \<open>formatLanguageBreakdown\<close> returns\<close>

lemma sorted_desc_first:
  fixes rs :: "rat list"
  assumes "sorted_wrt (\<lambda>a b. b \<le> a) rs" "j < length rs"
  shows "rs ! j \<le> rs ! 0"
proof (cases j)
  case 0
  then show ?thesis by simp
next
  case (Suc j')
  then show ?thesis using assms sorted_wrt_nth_less [OF assms(1), of 0 j] by simp
qed

lemma format_unfold:
  assumes "languageStats \<noteq> []"
  shows "formatLanguageBreakdown languageStats languageColors =
     (let F = map (formatted_language languageColors)
                (take 6 (sort_key (\<lambda>(nm, percent). - percent) languageStats));
          total = sum_doubles (map percentage' F)
      in if total \<noteq> Fin 100
         then let index = largestIndex (map percentage' F)
              in if index \<noteq> - 1
                 then F[nat index := (F ! nat index)\<lparr>percentage' :=
                        fl_add (percentage' (F ! nat index)) (fl_sub (Fin 100) total)\<rparr>]
                 else F
         else F)"
proof -
  have eq: "(\<lambda>(nm, percent). \<lparr>name' = nm, percentage' = Fin percent,
               color' = (if truthy (languageColors nm) then languageColors nm
                         else Str ''lang-other'')\<rparr>) = formatted_language languageColors"
    by (auto simp: formatted_language_def fun_eq_iff)
  have ne: "take 6 (sort_key (\<lambda>(nm, percent). - percent) languageStats) \<noteq> []"
    using assms by (cases languageStats) (auto simp: length_0_conv [symmetric] simp del: length_0_conv)
  show ?thesis using assms ne
    by (simp add: formatLanguageBreakdown_def eq Let_def)
qed

lemma update_percentage'_keeps:
  "map name' (L[g := (L ! g)\<lparr>percentage' := x\<rparr>]) = map name' L"
  "map color' (L[g := (L ! g)\<lparr>percentage' := x\<rparr>]) = map color' L"
  "g < length L \<Longrightarrow>
   map percentage' (L[g := (L ! g)\<lparr>percentage' := x\<rparr>]) = (map percentage' L)[g := x]"
proof -
  show "map name' (L[g := (L ! g)\<lparr>percentage' := x\<rparr>]) = map name' L"
  proof (rule nth_equalityI)
    fix j assume "j < length (map name' (L[g := (L ! g)\<lparr>percentage' := x\<rparr>]))"
    then show "map name' (L[g := (L ! g)\<lparr>percentage' := x\<rparr>]) ! j = map name' L ! j"
      by (cases "j = g") simp_all
  qed simp
  show "map color' (L[g := (L ! g)\<lparr>percentage' := x\<rparr>]) = map color' L"
  proof (rule nth_equalityI)
    fix j assume "j < length (map color' (L[g := (L ! g)\<lparr>percentage' := x\<rparr>]))"
    then show "map color' (L[g := (L ! g)\<lparr>percentage' := x\<rparr>]) ! j = map color' L ! j"
      by (cases "j = g") simp_all
  qed simp
  show "map percentage' (L[g := (L ! g)\<lparr>percentage' := x\<rparr>]) = (map percentage' L)[g := x]"
    if "g < length L"
    by (simp add: map_update)
qed

lemma format_cases:
  fixes languageStats :: "(string \<times> rat) list" and languageColors :: "string \<Rightarrow> jsval"
  assumes ne: "languageStats \<noteq> []"
  defines "S \<equiv> sort_key (\<lambda>(nm, percent). - percent) languageStats"
  defines "F \<equiv> take 6 S"
  defines "ps \<equiv> map (\<lambda>x. Fin (snd x)) F"
  defines "r \<equiv> formatLanguageBreakdown languageStats languageColors"
  shows "mset S = mset languageStats"
    and "sorted_wrt (\<lambda>a b. snd b \<le> snd a) S"
    and "F \<noteq> []"
    and "length r = min 6 (length languageStats)"
    and "map name' r = map fst F"
    and "map color' r = map (\<lambda>x. if truthy (languageColors (fst x)) then languageColors (fst x)
                                   else Str ''lang-other'') F"
    and "map percentage' r =
           (if sum_doubles ps \<noteq> Fin 100 \<and> 0 < snd (hd F)
            then ps[0 := fl_add (Fin (snd (hd F))) (fl_sub (Fin 100) (sum_doubles ps))]
            else ps)"
proof -
  define E where "E = map (formatted_language languageColors) F"
  define rs where "rs = map snd F"
  define total where "total = sum_doubles ps"
  show perm: "mset S = mset languageStats" by (simp add: S_def)
  have "sorted (map (\<lambda>(nm, percent). - percent) S)" unfolding S_def by (rule sorted_sort_key)
  then show sorted: "sorted_wrt (\<lambda>a b. snd b \<le> snd a) S"
    by (simp add: sorted_map case_prod_unfold)
  have Sne: "S \<noteq> []" using ne perm by (metis mset_zero_iff)
  show Fne: "F \<noteq> []" using Sne by (cases S) (auto simp: F_def)
  have "length S = length languageStats" using perm by (rule mset_eq_length)
  then have lenE: "length E = min 6 (length languageStats)"
    by (simp add: E_def F_def min.commute)
  have pE: "map percentage' E = ps" by (simp add: E_def ps_def formatted_language_def)
  have prs: "ps = map Fin rs" by (simp add: ps_def rs_def)
  have nE: "map name' E = map fst F" by (simp add: E_def formatted_language_def)
  have cE: "map color' E = map (\<lambda>x. if truthy (languageColors (fst x)) then languageColors (fst x)
                                   else Str ''lang-other'') F"
    by (simp add: E_def formatted_language_def)
  have desc: "sorted_wrt (\<lambda>a b. b \<le> a) rs"
    using sorted_wrt_take [OF sorted, of 6] by (simp add: rs_def F_def sorted_wrt_map)
  have rs0: "0 < length rs" using Fne by (simp add: rs_def)
  have E0: "0 < length E" using Fne by (simp add: E_def)
  have hd: "rs ! 0 = snd (hd F)" using Fne by (simp add: rs_def hd_conv_nth)
  have E_eq: "map (formatted_language languageColors)
                (take 6 (sort_key (\<lambda>(nm, percent). - percent) languageStats)) = E"
    by (simp add: E_def F_def S_def)
  have unf: "r = (if total \<noteq> Fin 100
         then let index = largestIndex ps
              in if index \<noteq> - 1
                 then E[nat index := (E ! nat index)\<lparr>percentage' :=
                        fl_add (percentage' (E ! nat index)) (fl_sub (Fin 100) total)\<rparr>]
                 else E
         else E)"
    using format_unfold [OF ne, of languageColors]
    unfolding r_def [symmetric] E_eq Let_def pE total_def [symmetric] .
  have cases: "(total \<noteq> Fin 100 \<and> 0 < snd (hd F) \<and>
                  r = E[0 := (E ! 0)\<lparr>percentage' :=
                         fl_add (Fin (snd (hd F))) (fl_sub (Fin 100) total)\<rparr>])
             \<or> (\<not> (total \<noteq> Fin 100 \<and> 0 < snd (hd F)) \<and> r = E)"
  proof (cases "total = Fin 100")
    case True
    then show ?thesis using unf by simp
  next
    case neq: False
    show ?thesis
    proof (cases "0 < snd (hd F)")
      case True
      have "rs ! 0 \<in> set rs" using rs0 by (rule nth_mem)
      moreover have "0 < rs ! 0" using True by (simp only: hd)
      ultimately have "\<exists>r\<in>set rs. 0 < r" by blast
      from largestIndex_some [OF this] obtain g where g: "g < length rs"
        "largestIndex (map Fin rs) = int g" "\<forall>j<g. rs ! j < rs ! g" by blast
      have "g = 0"
      proof (rule ccontr)
        assume "g \<noteq> 0"
        then have "rs ! 0 < rs ! g" using g(3) by simp
        moreover have "rs ! g \<le> rs ! 0" by (rule sorted_desc_first [OF desc g(1)])
        ultimately show False by simp
      qed
      then have li: "largestIndex ps = 0" using g(2) by (simp add: prs)
      have "percentage' (E ! 0) = ps ! 0" using E0 pE by (metis nth_map)
      then have p0: "percentage' (E ! 0) = Fin (snd (hd F))"
        using rs0 hd by (simp add: prs)
      have "r = E[0 := (E ! 0)\<lparr>percentage' :=
                         fl_add (Fin (snd (hd F))) (fl_sub (Fin 100) total)\<rparr>]"
        using unf neq li p0 by (simp add: Let_def)
      then show ?thesis using True neq by blast
    next
      case False
      have "\<forall>r\<in>set rs. r \<le> 0"
      proof
        fix x assume "x \<in> set rs"
        then obtain j where "j < length rs" "x = rs ! j" by (auto simp: in_set_conv_nth)
        then have "x \<le> rs ! 0" using sorted_desc_first [OF desc] by simp
        moreover have "rs ! 0 \<le> 0" using False by (simp only: hd not_less)
        ultimately show "x \<le> 0" by (rule order_trans)
      qed
      from largestIndex_none [OF this] have "largestIndex ps = - 1" by (simp only: prs)
      then have "r = E" using unf by simp
      then show ?thesis using False by blast
    qed
  qed
  show "length r = min 6 (length languageStats)" using cases lenE by auto
  show "map name' r = map fst F" using cases nE by (auto simp: update_percentage'_keeps)
  show "map color' r = map (\<lambda>x. if truthy (languageColors (fst x)) then languageColors (fst x)
                                   else Str ''lang-other'') F"
    using cases cE by (auto simp: update_percentage'_keeps)
  show "map percentage' r =
           (if sum_doubles ps \<noteq> Fin 100 \<and> 0 < snd (hd F)
            then ps[0 := fl_add (Fin (snd (hd F))) (fl_sub (Fin 100) (sum_doubles ps))]
            else ps)"
  proof (cases "total \<noteq> Fin 100 \<and> 0 < snd (hd F)")
    case True
    then have "r = E[0 := (E ! 0)\<lparr>percentage' :=
                         fl_add (Fin (snd (hd F))) (fl_sub (Fin 100) total)\<rparr>]"
      using cases by blast
    then have "map percentage' r = ps[0 := fl_add (Fin (snd (hd F))) (fl_sub (Fin 100) total)]"
      using update_percentage'_keeps(3) [OF E0] pE by simp
    then show ?thesis using True by (simp add: total_def)
  next
    case False
    then have "r = E" using cases by blast
    then have "map percentage' r = ps" using pE by simp
    then show ?thesis using False by (auto simp: total_def)
  qed
qed

lemma sum_list_update_int:
  fixes ks :: "int list"
  shows "g < length ks \<Longrightarrow> sum_list (ks[g := x]) = sum_list ks - ks ! g + x"
  by (induction ks arbitrary: g) (auto split: nat.splits)

lemma format_integer_total:
  fixes languageStats :: "(string \<times> rat) list" and languageColors :: "string \<Rightarrow> jsval"
  assumes ne: "languageStats \<noteq> []"
    and ints: "\<forall>x\<in>set languageStats. \<exists>k. snd x = of_int k \<and> 0 \<le> k \<and> k \<le> 100"
    and pos: "\<exists>x\<in>set languageStats. 0 < snd x"
  shows "sum_doubles (map percentage' (formatLanguageBreakdown languageStats languageColors)) = Fin 100"
proof -
  define S where "S = sort_key (\<lambda>(nm, percent). - percent) languageStats"
  define F where "F = take 6 S"
  define ps where "ps = map (\<lambda>x. Fin (snd x)) F"
  define r where "r = formatLanguageBreakdown languageStats languageColors"
  define ks where "ks = map (\<lambda>x. \<lfloor>snd x\<rfloor>) F"
  define K where "K = sum_list ks"
  have fc: "mset S = mset languageStats" "sorted_wrt (\<lambda>a b. snd b \<le> snd a) S" "F \<noteq> []"
    unfolding F_def S_def by (rule format_cases(1-3) [OF ne])+
  have fc7: "map percentage' r =
           (if sum_doubles ps \<noteq> Fin 100 \<and> 0 < snd (hd F)
            then ps[0 := fl_add (Fin (snd (hd F))) (fl_sub (Fin 100) (sum_doubles ps))]
            else ps)"
    unfolding r_def ps_def F_def S_def by (rule format_cases(7) [OF ne])
  have Fne: "F \<noteq> []" by (rule fc(3))
  have setS: "set S = set languageStats" using fc(1) by (metis set_mset_mset)
  have setF: "set F \<subseteq> set languageStats" using setS set_take_subset [of 6 S] by (simp add: F_def)
  have intF: "\<exists>k. snd x = of_int k \<and> 0 \<le> k \<and> k \<le> 100" if "x \<in> set F" for x
    using that setF ints by blast
  have fl: "snd x = of_int \<lfloor>snd x\<rfloor> \<and> 0 \<le> \<lfloor>snd x\<rfloor> \<and> \<lfloor>snd x\<rfloor> \<le> 100" if "x \<in> set F" for x
    using intF [OF that] by auto
  have ps: "ps = map (\<lambda>k. Fin (of_int k)) ks"
    using fl by (simp add: ps_def ks_def)
  have rng: "\<forall>k\<in>set ks. 0 \<le> k \<and> k \<le> 100" using fl by (auto simp: ks_def)
  have len: "length ks \<le> 6" by (simp add: ks_def F_def)
  have ks0: "0 < length ks" using Fne by (simp add: ks_def)
  have p53: "(2::int) ^ 53 = 9007199254740992" by simp
  have abs: "sum_list (map abs ks) \<le> 600"
    using sum_abs_bounded [OF rng] len by simp
  have absK: "\<bar>K\<bar> \<le> 600" using abs sum_list_abs [of ks] by (simp add: K_def)
  have total: "sum_doubles ps = Fin (of_int K)"
    unfolding ps K_def by (rule sum_doubles_int) (use abs p53 in simp)
  have hdF: "snd (hd F) = of_int (ks ! 0)"
    using Fne fl [of "hd F"] ks0 by (simp add: ks_def hd_conv_nth)
  have k0: "0 \<le> ks ! 0" "ks ! 0 \<le> 100" using rng ks0 by auto
  have hdpos: "0 < snd (hd F)"
  proof -
    from pos obtain x where x: "x \<in> set S" "0 < snd x" using setS by blast
    then obtain j where j: "j < length S" "x = S ! j" by (auto simp: in_set_conv_nth)
    have "sorted_wrt (\<lambda>a b. b \<le> a) (map snd S)" using fc(2) by (simp add: sorted_wrt_map)
    have "0 < length S" using j(1) by (cases S) auto
    then have "map snd S ! 0 = snd (S ! 0)" by (rule nth_map)
    with sorted_desc_first [OF \<open>sorted_wrt (\<lambda>a b. b \<le> a) (map snd S)\<close>, of j] j
    have "snd x \<le> snd (S ! 0)" by simp
    moreover have "hd F = S ! 0" using Fne by (cases S) (auto simp: F_def)
    ultimately show ?thesis using x(2) by simp
  qed
  show ?thesis
  proof (cases "K = 100")
    case True
    then have "map percentage' r = ps" using fc7 total by simp
    then show ?thesis using total True by (simp add: r_def)
  next
    case False
    then have "sum_doubles ps \<noteq> Fin 100" using total by simp
    then have pr: "map percentage' r = ps[0 := fl_add (Fin (snd (hd F))) (fl_sub (Fin 100) (sum_doubles ps))]"
      using fc7 hdpos by simp
    have sub: "fl_sub (Fin 100) (Fin (of_int K)) = Fin (of_int (100 - K))"
      using fl_sub_int [of 100 K] absK p53 by simp
    have add: "fl_add (Fin (of_int (ks ! 0))) (Fin (of_int (100 - K))) = Fin (of_int (ks ! 0 + (100 - K)))"
      by (rule fl_add_int) (use absK k0 p53 in simp)
    let ?ks' = "ks[0 := ks ! 0 + (100 - K)]"
    have v: "fl_add (Fin (snd (hd F))) (fl_sub (Fin 100) (sum_doubles ps))
               = Fin (of_int (ks ! 0 + (100 - K)))"
      by (simp only: total hdF sub add)
    have "map percentage' r = ps[0 := Fin (of_int (ks ! 0 + (100 - K)))]"
      using pr by (simp only: v)
    then have pr': "map percentage' r = map (\<lambda>k. Fin (of_int k)) ?ks'"
      by (simp add: ps map_update)
    have "map abs ?ks' = (map abs ks)[0 := \<bar>ks ! 0 + (100 - K)\<bar>]" by (simp add: map_update)
    then have "sum_list (map abs ?ks') = sum_list (map abs ks) - \<bar>ks ! 0\<bar> + \<bar>ks ! 0 + (100 - K)\<bar>"
      using ks0 by (simp add: sum_list_update_int)
    then have bound: "sum_list (map abs ?ks') < 2 ^ 53" using abs absK k0 p53 by simp
    have "sum_doubles (map percentage' r) = Fin (of_int (sum_list ?ks'))"
      unfolding pr' by (rule sum_doubles_int [OF bound])
    also have "sum_list ?ks' = 100" using ks0 by (simp add: sum_list_update_int K_def)
    finally show ?thesis by (simp add: r_def)
  qed
qed

section \<open>Claims about \<open>formatLanguageBreakdown\<close>\<close>

text \<open>
  Claim C9, as stated, fails in three ways. The mapping \<open>{A: 0}\<close> has no percentage above
  the sentinel of the search, no entry is found, and the list is returned with total 0.
  The percentages \<open>0.2\<close>, \<open>17.1\<close> and \<open>82.7\<close> add up, in doubles, to the double next above
  100; the correction is itself rounded, and the corrected list adds up to the double next
  below 100. And a name that the table does not hold but every object inherits, such as
  \<open>constructor\<close>, is given the inherited value, not \<open>'lang-other'\<close>.
\<close>

theorem format_total_counterexample:
  "formatLanguageBreakdown [(''A'', 0)] empty_object
     = [\<lparr>name' = ''A'', percentage' = Fin 0, color' = Str ''lang-other''\<rparr>]
   \<and> sum_doubles (map percentage' (formatLanguageBreakdown [(''A'', 0)] empty_object)) = Fin 0
   \<and> js_gt (Fin 100) (sum_doubles (map percentage' (formatLanguageBreakdown
         [(''X'', nearest_double (2 / 10)), (''Y'', nearest_double (171 / 10)),
          (''Z'', nearest_double (827 / 10))] empty_object)))
   \<and> map color' (formatLanguageBreakdown [(''constructor'', 100)] empty_object) = [Obj]"
  by code_simp

text \<open>
  Claim C9, amended. For every non-empty list of statistics and every colour table,
  \<open>formatLanguageBreakdown\<close> returns the first six entries of the statistics sorted by
  descending percentage, under their names; each colour is the value read from the table
  at the name when that value is truthy, \<open>'lang-other'\<close> otherwise; the percentages are
  those of the statistics, except that when their total in double arithmetic is not 100
  and the largest percentage is above 0, the first entry holds its percentage plus
  \<open>100 - total\<close>, both operations rounded to doubles. When every percentage is an
  integer from 0 to 100 and one of them is above 0, the percentages returned total
  exactly 100.
\<close>

theorem format_contract:
  fixes languageStats :: "(string \<times> rat) list" and languageColors :: "string \<Rightarrow> jsval"
  assumes "languageStats \<noteq> []"
  shows "(\<exists>S. mset S = mset languageStats \<and> sorted_wrt (\<lambda>a b. snd b \<le> snd a) S \<and>
     (let F = take 6 S; ps = map (\<lambda>x. Fin (snd x)) F; total = sum_doubles ps;
          r = formatLanguageBreakdown languageStats languageColors
      in length r = min 6 (length languageStats) \<and>
         map name' r = map fst F \<and>
         map color' r = map (\<lambda>x. if truthy (languageColors (fst x)) then languageColors (fst x)
                                   else Str ''lang-other'') F \<and>
         map percentage' r =
           (if total \<noteq> Fin 100 \<and> 0 < snd (hd F)
            then ps[0 := fl_add (Fin (snd (hd F))) (fl_sub (Fin 100) total)]
            else ps)))
   \<and> ((\<forall>x\<in>set languageStats. \<exists>k. snd x = of_int k \<and> 0 \<le> k \<and> k \<le> 100) \<and>
       (\<exists>x\<in>set languageStats. 0 < snd x) \<longrightarrow>
        sum_doubles (map percentage' (formatLanguageBreakdown languageStats languageColors)) = Fin 100)"
proof (rule conjI)
  let ?S = "sort_key (\<lambda>(nm, percent). - percent) languageStats"
  note fc = format_cases [OF assms]
  show "\<exists>S. mset S = mset languageStats \<and> sorted_wrt (\<lambda>a b. snd b \<le> snd a) S \<and>
     (let F = take 6 S; ps = map (\<lambda>x. Fin (snd x)) F; total = sum_doubles ps;
          r = formatLanguageBreakdown languageStats languageColors
      in length r = min 6 (length languageStats) \<and>
         map name' r = map fst F \<and>
         map color' r = map (\<lambda>x. if truthy (languageColors (fst x)) then languageColors (fst x)
                                   else Str ''lang-other'') F \<and>
         map percentage' r =
           (if total \<noteq> Fin 100 \<and> 0 < snd (hd F)
            then ps[0 := fl_add (Fin (snd (hd F))) (fl_sub (Fin 100) total)]
            else ps))"
    unfolding Let_def
    by (rule exI [of _ ?S]) (intro conjI fc(1) fc(2) fc(4) fc(5) fc(6) fc(7))
next
  show "(\<forall>x\<in>set languageStats. \<exists>k. snd x = of_int k \<and> 0 \<le> k \<and> k \<le> 100) \<and>
       (\<exists>x\<in>set languageStats. 0 < snd x) \<longrightarrow>
        sum_doubles (map percentage' (formatLanguageBreakdown languageStats languageColors)) = Fin 100"
  proof
    assume h: "(\<forall>x\<in>set languageStats. \<exists>k. snd x = of_int k \<and> 0 \<le> k \<and> k \<le> 100) \<and>
       (\<exists>x\<in>set languageStats. 0 < snd x)"
    show "sum_doubles (map percentage' (formatLanguageBreakdown languageStats languageColors)) = Fin 100"
      by (rule format_integer_total [OF assms conjunct1 [OF h] conjunct2 [OF h]])
  qed
qed

theorem format_contract_witness:
  "(\<exists>S. mset S = mset [(''JavaScript'', 60 :: rat), (''CSS'', 30), (''HTML'', 8)] \<and>
     sorted_wrt (\<lambda>a b. snd b \<le> snd a) S \<and>
     (let F = take 6 S; ps = map (\<lambda>x. Fin (snd x)) F; total = sum_doubles ps;
          r = formatLanguageBreakdown [(''JavaScript'', 60), (''CSS'', 30), (''HTML'', 8)] empty_object
      in length r = min 6 (length [(''JavaScript'', 60 :: rat), (''CSS'', 30), (''HTML'', 8)]) \<and>
         map name' r = map fst F \<and>
         map color' r = map (\<lambda>x. if truthy (empty_object (fst x)) then empty_object (fst x)
                                   else Str ''lang-other'') F \<and>
         map percentage' r =
           (if total \<noteq> Fin 100 \<and> 0 < snd (hd F)
            then ps[0 := fl_add (Fin (snd (hd F))) (fl_sub (Fin 100) total)]
            else ps)))
   \<and> sum_doubles (map percentage'
         (formatLanguageBreakdown [(''JavaScript'', 60), (''CSS'', 30), (''HTML'', 8)] empty_object))
       = Fin 100"
proof -
  have ne: "[(''JavaScript'', 60 :: rat), (''CSS'', 30), (''HTML'', 8)] \<noteq> []" by simp
  have ints: "\<forall>x\<in>set [(''JavaScript'', 60 :: rat), (''CSS'', 30), (''HTML'', 8)].
      \<exists>k. snd x = of_int k \<and> 0 \<le> k \<and> k \<le> 100"
  proof -
    have "(60::rat) = of_int 60 \<and> (0::int) \<le> 60 \<and> (60::int) \<le> 100" by simp
    moreover have "(30::rat) = of_int 30 \<and> (0::int) \<le> 30 \<and> (30::int) \<le> 100" by simp
    moreover have "(8::rat) = of_int 8 \<and> (0::int) \<le> 8 \<and> (8::int) \<le> 100" by simp
    ultimately show ?thesis by (simp del: of_int_numeral)
  qed
  have pos: "\<exists>x\<in>set [(''JavaScript'', 60 :: rat), (''CSS'', 30), (''HTML'', 8)]. 0 < snd x" by simp
  note inst = format_contract [OF ne, of empty_object]
  note total = conjunct2 [OF inst, THEN mp, OF conjI, OF ints pos]
  from conjunct1 [OF inst] total show ?thesis by (rule conjI)
qed

end
